theory Spec2Isabelle
  imports Main "HOL-Library.Word" "HOL-Library.Multiset"
begin

unbundle bit_operations_syntax

section \<open>Consistent-hash ring (package consistenthash)\<close>

subsection \<open>Library functions the ring calls\<close>

text \<open>
  A Go \<open>string\<close> and a Go \<open>[]byte\<close> are both sequences of 8-bit values; the
  conversions \<open>[]byte(s)\<close> and \<open>string(b)\<close> copy and keep the contents, so both are
  modelled as lists of \<^typ>\<open>char\<close>. A \<open>uint32\<close> is a \<^typ>\<open>32 word\<close>. Go's \<open>int\<close>
  is taken at its 64-bit size, where \<open>int(x)\<close> of a \<open>uint32\<close> is the non-negative
  value \<open>uint x\<close> and none of the index arithmetic below overflows; it is modelled
  as \<^typ>\<open>int\<close>.
\<close>

type_synonym bytes = "char list"
type_synonym Hash = "bytes \<Rightarrow> 32 word"

text \<open>
  \<open>crc32.ChecksumIEEE\<close> (Go standard library): the CRC-32 checksum with the IEEE
  polynomial, in its reflected form \<open>0xEDB88320\<close>, initial value and final
  complement \<open>0xFFFFFFFF\<close>, given here bit by bit.
\<close>

definition crc32_shift :: "32 word \<Rightarrow> 32 word" where
  "crc32_shift c = (if bit c 0 then drop_bit 1 c XOR 0xEDB88320 else drop_bit 1 c)"

definition crc32_update :: "32 word \<Rightarrow> char \<Rightarrow> 32 word" where
  "crc32_update c b =
     crc32_shift (crc32_shift (crc32_shift (crc32_shift (crc32_shift (crc32_shift
       (crc32_shift (crc32_shift (c XOR of_nat (of_char b)))))))))"

definition ChecksumIEEE :: Hash where
  "ChecksumIEEE data = foldl crc32_update 0xFFFFFFFF data XOR 0xFFFFFFFF"

text \<open>
  \<open>strconv.Itoa\<close> (Go standard library): the decimal digits of an \<open>int\<close>, most
  significant first, with a minus sign for a negative number.
\<close>

definition digit :: "nat \<Rightarrow> char" where
  "digit d = char_of (48 + d)"

function decimal :: "nat \<Rightarrow> string" where
  "decimal n = (if n < 10 then [digit n] else decimal (n div 10) @ [digit (n mod 10)])"
  by pat_completeness auto
termination
  by (relation "measure id") auto

declare decimal.simps [simp del]

definition Itoa :: "int \<Rightarrow> string" where
  "Itoa i = (if i < 0 then CHR ''-'' # decimal (nat (- i)) else decimal (nat i))"

text \<open>
  \<open>sort.Search(n, f)\<close> (Go standard library): binary search for the smallest index
  in \<open>[0, n)\<close> at which \<open>f\<close> holds, \<open>n\<close> when there is none. The loop keeps
  \<open>i \<le> h < j\<close> with \<open>h\<close> the midpoint.
\<close>

function Search_loop :: "(int \<Rightarrow> bool) \<Rightarrow> int \<Rightarrow> int \<Rightarrow> int" where
  "Search_loop f i j =
     (if i < j then
        (let h = (i + j) div 2 in
         if \<not> f h then Search_loop f (h + 1) j else Search_loop f i h)
      else i)"
  by pat_completeness auto
termination
  by (relation "measure (\<lambda>(f, i, j). nat (j - i))") auto

declare Search_loop.simps [simp del]

definition Search :: "int \<Rightarrow> (int \<Rightarrow> bool) \<Rightarrow> int" where
  "Search n f = Search_loop f 0 n"

text \<open>\<open>sort.Ints\<close> (Go standard library) sorts a slice of ints in ascending order.\<close>

definition Ints :: "int list \<Rightarrow> int list" where
  "Ints xs = sort xs"

subsection \<open>The ring\<close>

record Map =
  hash :: Hash
  replicas :: int
  keys :: "int list"
  hashMap :: "int \<rightharpoonup> string"

text \<open>\<open>New\<close>: a missing hash function (\<open>nil\<close>) is replaced by \<open>crc32.ChecksumIEEE\<close>.\<close>

definition consistenthash_New :: "int \<Rightarrow> Hash option \<Rightarrow> Map" where
  "consistenthash_New n fn =
     \<lparr> hash = (case fn of None \<Rightarrow> ChecksumIEEE | Some f \<Rightarrow> f),
       replicas = n, keys = [], hashMap = Map.empty \<rparr>"

definition IsEmpty :: "Map \<Rightarrow> bool" where
  "IsEmpty m = (length (keys m) = 0)"

text \<open>The inner loop of \<open>Add\<close>: \<open>for i := 0; i < m.replicas; i++\<close>, for one peer.\<close>

function Add_replicas :: "string \<Rightarrow> int \<Rightarrow> Map \<Rightarrow> Map" where
  "Add_replicas key i m =
     (if i < replicas m then
        (let h = uint (hash m (Itoa i @ key)) in
         Add_replicas key (i + 1)
           (m\<lparr> keys := keys m @ [h], hashMap := (hashMap m)(h \<mapsto> key) \<rparr>))
      else m)"
  by pat_completeness auto
termination
  by (relation "measure (\<lambda>(key, i, m). nat (replicas m - i))") auto

declare Add_replicas.simps [simp del]

definition Map_Add :: "string list \<Rightarrow> Map \<Rightarrow> Map" where
  "Map_Add ks m =
     (let m' = fold (\<lambda>key. Add_replicas key 0) ks m in m'\<lparr> keys := Ints (keys m') \<rparr>)"

text \<open>
  \<open>Get\<close>: a key absent from \<open>hashMap\<close> reads as the empty string, as a Go map
  lookup does; an index outside \<open>keys\<close> panics in Go and is \<open>None\<close> here.
\<close>

definition Map_Get :: "string \<Rightarrow> Map \<Rightarrow> string option" where
  "Map_Get key m =
     (if IsEmpty m then Some ''''
      else
        (let h = uint (hash m key);
             n = int (length (keys m));
             idx = Search n (\<lambda>i. keys m ! nat i \<ge> h);
             idx = (if idx = n then 0 else idx)
         in if 0 \<le> idx \<and> idx < n
            then Some (case hashMap m (keys m ! nat idx) of None \<Rightarrow> '''' | Some p \<Rightarrow> p)
            else None))"

text \<open>
  The invariant of the ring: the points are in ascending order and every stored point
  has a peer in \<open>hashMap\<close>.
\<close>

definition ring_inv :: "Map \<Rightarrow> bool" where
  "ring_inv m = (sorted (keys m) \<and> set (keys m) \<subseteq> dom (hashMap m))"


section \<open>ByteView (package groupcache)\<close>

text \<open>
  Errors a function returns are values of \<open>error\<close>; a run-time panic (a nil pointer
  dereference, a slice bound out of range) is a value of \<open>panic\<close>. A function that
  can panic returns \<open>panic + result\<close>.
\<close>

datatype error =
    ErrInvalidOffset
  | EOF
  | ErrNilAllocatingDst
  | ErrNilTruncatingDst
  | ErrProto string

datatype panic = NilDereference | SliceBounds

text \<open>
  The built-in \<open>copy(dst, src)\<close> overwrites the first \<open>min (len dst) (len src)\<close>
  elements of \<open>dst\<close> and returns that count; the length of \<open>dst\<close> stays.
\<close>

definition copy_builtin :: "bytes \<Rightarrow> bytes \<Rightarrow> int \<times> bytes" where
  "copy_builtin dst src =
     (let n = min (length dst) (length src) in (int n, take n src @ drop n dst))"

definition cloneBytes :: "bytes \<Rightarrow> bytes" where
  "cloneBytes b = snd (copy_builtin (replicate (length b) (CHR 0x00)) b)"

text \<open>
  A \<open>ByteView\<close> holds a byte slice \<open>b\<close> or a string \<open>s\<close>; \<open>b\<close> is used when it is not
  \<open>nil\<close>. The slice is \<open>None\<close> when \<open>nil\<close>. The fields are named \<open>bv_b\<close> and \<open>bv_s\<close>.
\<close>

record ByteView =
  bv_b :: "bytes option"
  bv_s :: string

definition ByteView_Len :: "ByteView \<Rightarrow> int" where
  "ByteView_Len v = (case bv_b v of Some b \<Rightarrow> int (length b) | None \<Rightarrow> int (length (bv_s v)))"

definition ByteSlice :: "ByteView \<Rightarrow> bytes" where
  "ByteSlice v = (case bv_b v of Some b \<Rightarrow> cloneBytes b | None \<Rightarrow> bv_s v)"

definition String :: "ByteView \<Rightarrow> string" where
  "String v = (case bv_b v of Some b \<Rightarrow> b | None \<Rightarrow> bv_s v)"

text \<open>\<open>SliceFrom\<close>: \<open>x[from:]\<close> panics unless \<open>0 \<le> from \<le> len x\<close>.\<close>

definition SliceFrom :: "int \<Rightarrow> ByteView \<Rightarrow> panic + ByteView" where
  "SliceFrom from v =
     (case bv_b v of
        Some b \<Rightarrow>
          if 0 \<le> from \<and> from \<le> int (length b)
          then Inr \<lparr> bv_b = Some (drop (nat from) b), bv_s = [] \<rparr>
          else Inl SliceBounds
      | None \<Rightarrow>
          if 0 \<le> from \<and> from \<le> int (length (bv_s v))
          then Inr \<lparr> bv_b = None, bv_s = drop (nat from) (bv_s v) \<rparr>
          else Inl SliceBounds)"

text \<open>\<open>Copy\<close> returns the count and the contents of \<open>dest\<close> after the call.\<close>

definition Copy :: "bytes \<Rightarrow> ByteView \<Rightarrow> int \<times> bytes" where
  "Copy dest v = (case bv_b v of Some b \<Rightarrow> copy_builtin dest b | None \<Rightarrow> copy_builtin dest (bv_s v))"

text \<open>
  \<open>ReadAt p off\<close> returns the count \<open>n\<close>, the error (\<open>None\<close> for \<open>nil\<close>) and the contents
  of \<open>p\<close> after the call. The offset is an \<open>int64\<close>, of the same range as \<open>int\<close>.
\<close>

definition ReadAt :: "bytes \<Rightarrow> int \<Rightarrow> ByteView \<Rightarrow> panic + (int \<times> error option \<times> bytes)" where
  "ReadAt p off v =
     (if off < 0 then Inr (0, Some ErrInvalidOffset, p)
      else if off \<ge> ByteView_Len v then Inr (0, Some EOF, p)
      else
        (case SliceFrom off v of
           Inl pn \<Rightarrow> Inl pn
         | Inr w \<Rightarrow>
             (let (n, p') = Copy p w
              in Inr (n, (if n < int (length p) then Some EOF else None), p'))))"

section \<open>Sinks (package groupcache)\<close>

text \<open>
  The five implementations of the \<open>Sink\<close> interface, each with the location it was
  given and its own view. A pointer is \<open>None\<close> when \<open>nil\<close> and otherwise holds the
  value it points at: the string behind \<open>sp\<close>, the \<open>ByteView\<close> or the message behind
  \<open>dst\<close>, the contents of the byte slice behind \<open>dst\<close>. \<open>ByteViewSink\<close> refuses a
  \<open>nil\<close> destination when it is built and a \<open>ProtoSink\<close> is used with a message, so
  these two carry the value itself. The field \<open>typ\<close> of \<open>protoSink\<close> is never used.
\<close>

datatype 'm Sink =
    stringSink "string option" ByteView
  | byteViewSink ByteView
  | protoSink 'm ByteView
  | allocBytesSink "bytes option" ByteView
  | truncBytesSink "bytes option" ByteView

text \<open>
  The codec is outside the repository: \<open>proto.Marshal\<close> returns a byte slice
  (possibly \<open>nil\<close>) or an error, \<open>proto.Unmarshal\<close> writes into the destination message
  and returns an error or \<open>nil\<close>. Both are parameters of the setters.
\<close>

type_synonym 'm Marshal = "'m \<Rightarrow> error + bytes option"
type_synonym 'm Unmarshal = "bytes \<Rightarrow> 'm \<Rightarrow> error option \<times> 'm"

fun view :: "'m Sink \<Rightarrow> ByteView" where
  "view (stringSink sp v) = v"
| "view (byteViewSink dst) = dst"
| "view (protoSink dst v) = v"
| "view (allocBytesSink dst v) = v"
| "view (truncBytesSink dst v) = v"

text \<open>The contents of a byte slice; a \<open>nil\<close> slice has none.\<close>

definition contents :: "bytes option \<Rightarrow> bytes" where
  "contents b = (case b of None \<Rightarrow> [] | Some x \<Rightarrow> x)"

definition alloc_setBytesOwned ::
  "bytes option \<Rightarrow> bytes option \<Rightarrow> ByteView \<Rightarrow> error option \<times> 'm Sink" where
  "alloc_setBytesOwned b dst v =
     (case dst of
        None \<Rightarrow> (Some ErrNilAllocatingDst, allocBytesSink dst v)
      | Some _ \<Rightarrow>
          (None, allocBytesSink (Some (cloneBytes (contents b))) (v\<lparr> bv_b := b, bv_s := [] \<rparr>)))"

definition trunc_copy :: "bytes \<Rightarrow> bytes \<Rightarrow> bytes" where
  "trunc_copy d src =
     (let (n, d') = copy_builtin d src
      in if n < int (length d') then take (nat n) d' else d')"

definition trunc_setBytesOwned ::
  "bytes option \<Rightarrow> bytes option \<Rightarrow> ByteView \<Rightarrow> error option \<times> 'm Sink" where
  "trunc_setBytesOwned b dst v =
     (case dst of
        None \<Rightarrow> (Some ErrNilTruncatingDst, truncBytesSink dst v)
      | Some d \<Rightarrow>
          (None, truncBytesSink (Some (trunc_copy d (contents b))) (v\<lparr> bv_b := b, bv_s := [] \<rparr>)))"

fun SetString :: "'m Unmarshal \<Rightarrow> string \<Rightarrow> 'm Sink \<Rightarrow> panic + (error option \<times> 'm Sink)" where
  "SetString unm x (stringSink sp v) =
     (case sp of
        None \<Rightarrow> Inl NilDereference
      | Some _ \<Rightarrow> Inr (None, stringSink (Some x) (v\<lparr> bv_b := None, bv_s := x \<rparr>)))"
| "SetString unm x (byteViewSink dst) = Inr (None, byteViewSink \<lparr> bv_b = None, bv_s = x \<rparr>)"
| "SetString unm x (protoSink dst v) =
     (let b = x; (err, dst') = unm b dst
      in if err \<noteq> None then Inr (err, protoSink dst' v)
         else Inr (None, protoSink dst' (v\<lparr> bv_b := Some b, bv_s := [] \<rparr>)))"
| "SetString unm x (allocBytesSink dst v) =
     (case dst of
        None \<Rightarrow> Inr (Some ErrNilAllocatingDst, allocBytesSink dst v)
      | Some _ \<Rightarrow> Inr (None, allocBytesSink (Some x) (v\<lparr> bv_b := None, bv_s := x \<rparr>)))"
| "SetString unm x (truncBytesSink dst v) =
     (case dst of
        None \<Rightarrow> Inr (Some ErrNilTruncatingDst, truncBytesSink dst v)
      | Some d \<Rightarrow>
          Inr (None, truncBytesSink (Some (trunc_copy d x)) (v\<lparr> bv_b := None, bv_s := x \<rparr>)))"

fun SetBytes :: "'m Unmarshal \<Rightarrow> bytes \<Rightarrow> 'm Sink \<Rightarrow> panic + (error option \<times> 'm Sink)" where
  "SetBytes unm x (stringSink sp v) = SetString unm x (stringSink sp v)"
| "SetBytes unm x (byteViewSink dst) =
     Inr (None, byteViewSink \<lparr> bv_b = Some (cloneBytes x), bv_s = [] \<rparr>)"
| "SetBytes unm x (protoSink dst v) =
     (let (err, dst') = unm x dst
      in if err \<noteq> None then Inr (err, protoSink dst' v)
         else Inr (None, protoSink dst' (v\<lparr> bv_b := Some (cloneBytes x), bv_s := [] \<rparr>)))"
| "SetBytes unm x (allocBytesSink dst v) = Inr (alloc_setBytesOwned (Some (cloneBytes x)) dst v)"
| "SetBytes unm x (truncBytesSink dst v) = Inr (trunc_setBytesOwned (Some (cloneBytes x)) dst v)"

fun SetProto ::
  "'m Marshal \<Rightarrow> 'm Unmarshal \<Rightarrow> 'm \<Rightarrow> 'm Sink \<Rightarrow> panic + (error option \<times> 'm Sink)" where
  "SetProto mar unm m (stringSink sp v) =
     (case mar m of
        Inl err \<Rightarrow> Inr (Some err, stringSink sp v)
      | Inr b \<Rightarrow>
          (case sp of
             None \<Rightarrow> Inl NilDereference
           | Some _ \<Rightarrow> Inr (None, stringSink (Some (contents b)) (v\<lparr> bv_b := b \<rparr>))))"
| "SetProto mar unm m (byteViewSink dst) =
     (case mar m of
        Inl err \<Rightarrow> Inr (Some err, byteViewSink dst)
      | Inr b \<Rightarrow> Inr (None, byteViewSink \<lparr> bv_b = b, bv_s = [] \<rparr>))"
| "SetProto mar unm m (protoSink dst v) =
     (case mar m of
        Inl err \<Rightarrow> Inr (Some err, protoSink dst v)
      | Inr b \<Rightarrow>
          (let (err, dst') = unm (contents b) dst
           in if err \<noteq> None then Inr (err, protoSink dst' v)
              else Inr (None, protoSink dst' (v\<lparr> bv_b := b, bv_s := [] \<rparr>))))"
| "SetProto mar unm m (allocBytesSink dst v) =
     (case mar m of
        Inl err \<Rightarrow> Inr (Some err, allocBytesSink dst v)
      | Inr b \<Rightarrow> Inr (alloc_setBytesOwned b dst v))"
| "SetProto mar unm m (truncBytesSink dst v) =
     (case mar m of
        Inl err \<Rightarrow> Inr (Some err, truncBytesSink dst v)
      | Inr b \<Rightarrow> Inr (trunc_setBytesOwned b dst v))"

section \<open>LRU cache (package lru)\<close>

subsection \<open>The list of package container/list\<close>

text \<open>
  \<open>container/list\<close> (Go standard library) is a doubly linked list of elements. An
  element is a heap object, here an address; the list is the sequence of its
  elements, front first. \<open>MoveToFront\<close> and \<open>Remove\<close> do nothing for an element that
  is not in the list.
\<close>

type_synonym Element = nat

definition PushFront :: "Element \<Rightarrow> Element list \<Rightarrow> Element list" where
  "PushFront e l = e # l"

definition MoveToFront :: "Element \<Rightarrow> Element list \<Rightarrow> Element list" where
  "MoveToFront e l = (if e \<in> set l then e # remove1 e l else l)"

definition list_Remove :: "Element \<Rightarrow> Element list \<Rightarrow> Element list" where
  "list_Remove e l = (if e \<in> set l then remove1 e l else l)"

definition Back :: "Element list \<Rightarrow> Element option" where
  "Back l = (if l = [] then None else Some (last l))"

definition list_Len :: "Element list \<Rightarrow> int" where
  "list_Len l = int (length l)"

subsection \<open>The cache\<close>

text \<open>
  \<open>ll\<close> and \<open>cache\<close> are \<open>None\<close> when \<open>nil\<close>. \<open>cache\<close> maps a key to an element, and
  \<open>entries\<close> is the heap: the \<open>entry\<close> (key and value) that the \<open>Value\<close> of each
  allocated element points at; \<open>fresh\<close> is the next address to allocate.
  \<open>OnEvicted\<close> tells whether a callback is set, and \<open>calls\<close> records the calls made
  to it, oldest first, each with the key and the value it was given; the callback
  itself does not touch the cache.

  The keys of type \<^typ>\<open>'k\<close> are the comparable Go values that are equal to
  themselves, as strings, integers and pointers are. For such a key \<open>c.cache[key]\<close>
  finds the element stored under it, \<open>c.cache[key] = ele\<close> replaces it and
  \<open>delete(c.cache, key)\<close> removes it, which is what the map operations below do. A
  \<open>Key\<close> may also be a floating-point NaN, which is comparable and differs from
  itself: the map never finds it, stores every occurrence as an entry of its own and
  \<open>delete\<close> removes nothing. Such a key is not a value of \<^typ>\<open>'k\<close>: the properties
  proved of the cache are properties of the keys that are equal to themselves.
\<close>

record ('k, 'v) Cache =
  MaxEntries :: int
  OnEvicted :: bool
  ll :: "Element list option"
  cache :: "('k \<rightharpoonup> Element) option"
  entries :: "Element \<rightharpoonup> 'k \<times> 'v"
  fresh :: Element
  calls :: "('k \<times> 'v) list"

definition lru_New :: "int \<Rightarrow> ('k, 'v) Cache" where
  "lru_New maxEntries =
     \<lparr> MaxEntries = maxEntries, OnEvicted = False, ll = Some [], cache = Some Map.empty,
       entries = Map.empty, fresh = 0, calls = [] \<rparr>"

text \<open>The zero value \<open>Cache{}\<close>, whose exported fields the caller then sets.\<close>

definition Cache_zero :: "('k, 'v) Cache" where
  "Cache_zero =
     \<lparr> MaxEntries = 0, OnEvicted = False, ll = None, cache = None,
       entries = Map.empty, fresh = 0, calls = [] \<rparr>"

text \<open>
  A method called on a \<open>nil\<close> list, and the \<open>Value\<close> of an element that was never
  allocated, are nil dereferences. In \<open>removeElement\<close>, \<open>delete(c.cache, kv.key)\<close> on
  a \<open>nil\<close> map does nothing, and on a map it removes the entry of the key, the key
  being equal to itself.
\<close>

definition removeElement :: "Element \<Rightarrow> ('k, 'v) Cache \<Rightarrow> panic + ('k, 'v) Cache" where
  "removeElement e c =
     (case ll c of
        None \<Rightarrow> Inl NilDereference
      | Some l \<Rightarrow>
          (case entries c e of
             None \<Rightarrow> Inl NilDereference
           | Some (k, v) \<Rightarrow>
               (let c = c\<lparr> ll := Some (list_Remove e l) \<rparr>;
                    c = c\<lparr> cache := map_option (\<lambda>m. m(k := None)) (cache c) \<rparr>
                in if OnEvicted c then Inr (c\<lparr> calls := calls c @ [(k, v)] \<rparr>) else Inr c)))"

definition Cache_RemoveOldest :: "('k, 'v) Cache \<Rightarrow> panic + ('k, 'v) Cache" where
  "Cache_RemoveOldest c =
     (if cache c = None then Inr c
      else
        (case ll c of
           None \<Rightarrow> Inl NilDereference
         | Some l \<Rightarrow>
             (case Back l of
                None \<Rightarrow> Inr c
              | Some ele \<Rightarrow> removeElement ele c)))"

definition Cache_Add :: "'k \<Rightarrow> 'v \<Rightarrow> ('k, 'v) Cache \<Rightarrow> panic + ('k, 'v) Cache" where
  "Cache_Add key val c0 =
     (let c = (if cache c0 = None then c0\<lparr> cache := Some Map.empty, ll := Some [] \<rparr> else c0)
      in case cache c of
           None \<Rightarrow> Inl NilDereference
         | Some m \<Rightarrow>
             (case m key of
                Some ee \<Rightarrow>
                  (case ll c of
                     None \<Rightarrow> Inl NilDereference
                   | Some l \<Rightarrow>
                       (case entries c ee of
                          None \<Rightarrow> Inl NilDereference
                        | Some (k, _) \<Rightarrow>
                            Inr (c\<lparr> ll := Some (MoveToFront ee l),
                                    entries := (entries c)(ee \<mapsto> (k, val)) \<rparr>)))
              | None \<Rightarrow>
                  (case ll c of
                     None \<Rightarrow> Inl NilDereference
                   | Some l \<Rightarrow>
                       (let ele = fresh c;
                            c = c\<lparr> fresh := Suc ele,
                                   entries := (entries c)(ele \<mapsto> (key, val)),
                                   ll := Some (PushFront ele l),
                                   cache := Some (m(key \<mapsto> ele)) \<rparr>
                        in if MaxEntries c \<noteq> 0 \<and> list_Len (PushFront ele l) > MaxEntries c
                           then Cache_RemoveOldest c
                           else Inr c))))"

text \<open>\<open>Get\<close> returns the value on a hit and \<open>None\<close> on a miss, with the cache after.\<close>

definition Cache_Get :: "'k \<Rightarrow> ('k, 'v) Cache \<Rightarrow> panic + ('v option \<times> ('k, 'v) Cache)" where
  "Cache_Get key c =
     (case cache c of
        None \<Rightarrow> Inr (None, c)
      | Some m \<Rightarrow>
          (case m key of
             Some ele \<Rightarrow>
               (case ll c of
                  None \<Rightarrow> Inl NilDereference
                | Some l \<Rightarrow>
                    (case entries c ele of
                       None \<Rightarrow> Inl NilDereference
                     | Some (_, v) \<Rightarrow> Inr (Some v, c\<lparr> ll := Some (MoveToFront ele l) \<rparr>)))
           | None \<Rightarrow> Inr (None, c)))"

definition Cache_Remove :: "'k \<Rightarrow> ('k, 'v) Cache \<Rightarrow> panic + ('k, 'v) Cache" where
  "Cache_Remove key c =
     (case cache c of
        None \<Rightarrow> Inr c
      | Some m \<Rightarrow>
          (case m key of
             Some ele \<Rightarrow> removeElement ele c
           | None \<Rightarrow> Inr c))"

definition Cache_Len :: "('k, 'v) Cache \<Rightarrow> panic + int" where
  "Cache_Len c =
     (if cache c = None then Inr 0
      else (case ll c of None \<Rightarrow> Inl NilDereference | Some l \<Rightarrow> Inr (list_Len l)))"

text \<open>
  \<open>Clear\<close> ranges over the map in an order the Go run time chooses; the order is the
  argument \<open>order\<close>, a list of the keys of the map. Ranging over a \<open>nil\<close> map visits
  nothing.
\<close>

fun Clear_range :: "'k list \<Rightarrow> ('k \<rightharpoonup> Element) \<Rightarrow> ('k, 'v) Cache \<Rightarrow> panic + ('k, 'v) Cache" where
  "Clear_range [] m c = Inr c"
| "Clear_range (key # rest) m c =
     (case m key of
        None \<Rightarrow> Clear_range rest m c
      | Some e \<Rightarrow>
          (case entries c e of
             None \<Rightarrow> Inl NilDereference
           | Some (k, v) \<Rightarrow> Clear_range rest m (c\<lparr> calls := calls c @ [(k, v)] \<rparr>)))"

definition Cache_Clear :: "'k list \<Rightarrow> ('k, 'v) Cache \<Rightarrow> panic + ('k, 'v) Cache" where
  "Cache_Clear order c =
     (case (if OnEvicted c
            then (case cache c of None \<Rightarrow> Inr c | Some m \<Rightarrow> Clear_range order m c)
            else Inr c) of
        Inl pn \<Rightarrow> Inl pn
      | Inr c \<Rightarrow> Inr (c\<lparr> ll := None, cache := None \<rparr>))"

subsection \<open>Sequences of operations\<close>

datatype ('k, 'v) operation =
    Add 'k 'v
  | Get 'k
  | Remove 'k
  | RemoveOldest
  | Len
  | Clear "'k list"

text \<open>What an operation returns to its caller.\<close>

datatype 'v reply = Done | Got "'v option" | Length int

fun apply_op ::
  "('k, 'v) operation \<Rightarrow> ('k, 'v) Cache \<Rightarrow> panic + ('v reply \<times> ('k, 'v) Cache)" where
  "apply_op (Add k v) c = map_sum id (Pair Done) (Cache_Add k v c)"
| "apply_op (Get k) c = map_sum id (\<lambda>(r, c'). (Got r, c')) (Cache_Get k c)"
| "apply_op (Remove k) c = map_sum id (Pair Done) (Cache_Remove k c)"
| "apply_op RemoveOldest c = map_sum id (Pair Done) (Cache_RemoveOldest c)"
| "apply_op Len c = map_sum id (\<lambda>n. (Length n, c)) (Cache_Len c)"
| "apply_op (Clear order) c = map_sum id (Pair Done) (Cache_Clear order c)"

fun run ::
  "('k, 'v) operation list \<Rightarrow> ('k, 'v) Cache \<Rightarrow> panic + ('v reply list \<times> ('k, 'v) Cache)" where
  "run [] c = Inr ([], c)"
| "run (x # xs) c =
     (case apply_op x c of
        Inl pn \<Rightarrow> Inl pn
      | Inr (out, c') \<Rightarrow>
          (case run xs c' of
             Inl pn \<Rightarrow> Inl pn
           | Inr (outs, c'') \<Rightarrow> Inr (out # outs, c'')))"

text \<open>
  A cache as a caller gets it: built by \<open>New\<close> or the zero value, with the exported
  fields \<open>MaxEntries\<close> and \<open>OnEvicted\<close> set as the caller likes.
\<close>

definition initial :: "int \<Rightarrow> bool \<Rightarrow> ('k, 'v) Cache set" where
  "initial n cb =
     {(lru_New n)\<lparr> OnEvicted := cb \<rparr>, Cache_zero\<lparr> MaxEntries := n, OnEvicted := cb \<rparr>}"

text \<open>The entries of the cache in the order of the list, most recently used first.\<close>

definition items :: "('k, 'v) Cache \<Rightarrow> ('k \<times> 'v) list" where
  "items c = (case ll c of None \<Rightarrow> [] | Some l \<Rightarrow> List.map_filter (entries c) l)"

text \<open>
  The invariant of the cache: the list and the map are both \<open>nil\<close> or both set; the
  list has no element twice; every element of the list is allocated and the map
  sends the key of its entry to it; and the map holds nothing else.
\<close>

definition cache_ok :: "('k, 'v) Cache \<Rightarrow> bool" where
  "cache_ok c =
     (case cache c of
        None \<Rightarrow> ll c = None
      | Some m \<Rightarrow>
          (case ll c of
             None \<Rightarrow> False
           | Some l \<Rightarrow>
               distinct l \<and>
               (\<forall>e \<in> set l. e < fresh c \<and> (\<exists>k v. entries c e = Some (k, v) \<and> m k = Some e)) \<and>
               (\<forall>k e. m k = Some e \<longrightarrow> e \<in> set l \<and> (\<exists>v. entries c e = Some (k, v)))))"

text \<open>The capacity bound: a cache with a positive \<open>MaxEntries\<close> holds no more entries.\<close>

definition bounded :: "('k, 'v) Cache \<Rightarrow> bool" where
  "bounded c \<longleftrightarrow> (0 < MaxEntries c \<longrightarrow> int (length (items c)) \<le> MaxEntries c)"

section \<open>Single-flight (package singleflight)\<close>

text \<open>
  \<open>Do\<close> is run by several goroutines at once. Every access to the map \<open>g.m\<close> is
  between \<open>g.mu.Lock()\<close> and \<open>g.mu.Unlock()\<close>, so each locked section is one atomic
  step; the steps of different calls interleave in any order. A call of \<open>Do\<close> is
  identified by a number; \<open>pc\<close> says where it stands:
  \<^item> \<open>Idle\<close>: \<open>Do\<close> is not yet called;
  \<^item> \<open>Entered\<close>: \<open>Do\<close> is called and the call is at the first \<open>g.mu.Lock()\<close>, not yet
    holding the mutex;
  \<^item> \<open>Waiting c\<close>: a duplicate: it found the record \<open>c\<close> in the map, has unlocked and
    is at \<open>c.wg.Wait()\<close>;
  \<^item> \<open>ReturnedDup c r\<close>: a duplicate that has returned \<open>c.val, c.err\<close>, read as \<open>r\<close>;
  \<^item> \<open>Registered c\<close>: has stored its record \<open>c\<close> in the map and unlocked;
  \<^item> \<open>InFlight c\<close>: is running \<open>fn\<close>;
  \<^item> \<open>Finished c\<close>: \<open>fn\<close> has returned and \<open>c.val, c.err\<close> are assigned;
  \<^item> \<open>Signalled c\<close>: has called \<open>c.wg.Done()\<close>;
  \<^item> \<open>Deleted c\<close>: has deleted the key from the map and unlocked;
  \<^item> \<open>Returned c r\<close>: has returned \<open>c.val, c.err\<close>, read as \<open>r\<close>.
  A record \<open>call\<close> is a heap object, here an address. Its fields \<open>val\<close> and \<open>err\<close> are
  one value of type \<open>'r\<close>, \<open>None\<close> while they still hold their zero values; \<open>wg\<close> is
  the counter of the wait group.
\<close>

datatype 'r pc =
    Idle
  | Entered
  | Waiting nat
  | ReturnedDup nat "'r option"
  | Registered nat
  | InFlight nat
  | Finished nat
  | Signalled nat
  | Deleted nat
  | Returned nat "'r option"

record 'r call =
  wg :: nat
  val_err :: "'r option"

text \<open>
  The group and the calls on it: \<open>g_m\<close> is the map \<open>g.m\<close> (\<open>None\<close> when \<open>nil\<close>), \<open>heap\<close>
  holds the allocated records, \<open>next_call\<close> is the next address, and \<open>invoked\<close> lists
  the calls of \<open>Do\<close> that have invoked their \<open>fn\<close>, in the order of the invocations.
\<close>

record 'r world =
  g_m :: "(string \<rightharpoonup> nat) option"
  heap :: "nat \<rightharpoonup> 'r call"
  next_call :: nat
  pc :: "nat \<Rightarrow> 'r pc"
  invoked :: "nat list"

definition world0 :: "'r world" where
  "world0 = \<lparr> g_m = None, heap = Map.empty, next_call = 0, pc = (\<lambda>_. Idle), invoked = [] \<rparr>"

text \<open>
  One step of the call \<open>t\<close>, whose key is \<open>key t\<close>; \<open>r\<close> is what \<open>fn\<close> returns when the
  step is the return of \<open>fn\<close>. The result is \<open>None\<close> when the call cannot move: it has
  returned, or it waits on a counter that is not zero. The steps are: the call of
  \<open>Do\<close>; the first locked section, from \<open>g.mu.Lock()\<close> to the \<open>g.mu.Unlock()\<close> of either
  branch; the return of \<open>c.wg.Wait()\<close> with the \<open>return c.val, c.err\<close> after it; the
  call of \<open>fn\<close>; the return of \<open>fn\<close> with the assignment of \<open>c.val, c.err\<close>;
  \<open>c.wg.Done()\<close>; the second locked section, which deletes the key; the final
  \<open>return c.val, c.err\<close>.
\<close>

definition Do_step :: "(nat \<Rightarrow> string) \<Rightarrow> nat \<Rightarrow> 'r \<Rightarrow> 'r world \<Rightarrow> 'r world option" where
  "Do_step key t r s =
     (case pc s t of
        Idle \<Rightarrow> Some (s\<lparr> pc := (pc s)(t := Entered) \<rparr>)
      | Entered \<Rightarrow>
          (let mp = (case g_m s of None \<Rightarrow> Map.empty | Some mp \<Rightarrow> mp)
           in case mp (key t) of
                Some c \<Rightarrow> Some (s\<lparr> g_m := Some mp, pc := (pc s)(t := Waiting c) \<rparr>)
              | None \<Rightarrow>
                  (let c = next_call s
                   in Some (s\<lparr> g_m := Some (mp(key t \<mapsto> c)),
                               heap := (heap s)(c \<mapsto> \<lparr> wg = 1, val_err = None \<rparr>),
                               next_call := Suc c,
                               pc := (pc s)(t := Registered c) \<rparr>)))
      | Waiting c \<Rightarrow>
          (case heap s c of
             None \<Rightarrow> None
           | Some cl \<Rightarrow>
               if wg cl = 0 then Some (s\<lparr> pc := (pc s)(t := ReturnedDup c (val_err cl)) \<rparr>)
               else None)
      | ReturnedDup c x \<Rightarrow> None
      | Registered c \<Rightarrow>
          Some (s\<lparr> pc := (pc s)(t := InFlight c), invoked := invoked s @ [t] \<rparr>)
      | InFlight c \<Rightarrow>
          (case heap s c of
             None \<Rightarrow> None
           | Some cl \<Rightarrow>
               Some (s\<lparr> heap := (heap s)(c \<mapsto> cl\<lparr> val_err := Some r \<rparr>),
                        pc := (pc s)(t := Finished c) \<rparr>))
      | Finished c \<Rightarrow>
          (case heap s c of
             None \<Rightarrow> None
           | Some cl \<Rightarrow>
               Some (s\<lparr> heap := (heap s)(c \<mapsto> cl\<lparr> wg := wg cl - 1 \<rparr>),
                        pc := (pc s)(t := Signalled c) \<rparr>))
      | Signalled c \<Rightarrow>
          Some (s\<lparr> g_m := map_option (\<lambda>mp. mp(key t := None)) (g_m s),
                   pc := (pc s)(t := Deleted c) \<rparr>)
      | Deleted c \<Rightarrow>
          (case heap s c of
             None \<Rightarrow> None
           | Some cl \<Rightarrow> Some (s\<lparr> pc := (pc s)(t := Returned c (val_err cl)) \<rparr>))
      | Returned c x \<Rightarrow> None)"

text \<open>
  A schedule is the list of the calls that move, in order, each with the value its
  \<open>fn\<close> would return; a call that cannot move is passed over.
\<close>

definition sched_step :: "(nat \<Rightarrow> string) \<Rightarrow> 'r world \<Rightarrow> nat \<times> 'r \<Rightarrow> 'r world" where
  "sched_step key s x = (case Do_step key (fst x) (snd x) s of None \<Rightarrow> s | Some s' \<Rightarrow> s')"

definition run_sched :: "(nat \<Rightarrow> string) \<Rightarrow> (nat \<times> 'r) list \<Rightarrow> 'r world \<Rightarrow> 'r world" where
  "run_sched key sched s = foldl (sched_step key) s sched"

text \<open>The key of the scenarios: every call is for the key \<open>k\<close>.\<close>

definition one_key :: "nat \<Rightarrow> string" where
  "one_key t = ''k''"

text \<open>The map \<open>g.m\<close> as a map: a \<open>nil\<close> map has no key.\<close>

definition the_map :: "'r world \<Rightarrow> string \<rightharpoonup> nat" where
  "the_map s = (case g_m s of None \<Rightarrow> Map.empty | Some mp \<Rightarrow> mp)"

text \<open>
  The record a call holds in the map (from registration until it deletes the key),
  the record it created, the record it refers to, whether it is in progress (\<open>Do\<close> is
  called and has not yet returned), and whether it has invoked \<open>fn\<close>.
\<close>

fun holds :: "'r pc \<Rightarrow> nat option" where
  "holds (Registered c) = Some c"
| "holds (InFlight c) = Some c"
| "holds (Finished c) = Some c"
| "holds (Signalled c) = Some c"
| "holds _ = None"

fun created :: "'r pc \<Rightarrow> nat option" where
  "created (Registered c) = Some c"
| "created (InFlight c) = Some c"
| "created (Finished c) = Some c"
| "created (Signalled c) = Some c"
| "created (Deleted c) = Some c"
| "created (Returned c x) = Some c"
| "created _ = None"

fun refers :: "'r pc \<Rightarrow> nat option" where
  "refers Idle = None"
| "refers Entered = None"
| "refers (Waiting c) = Some c"
| "refers (ReturnedDup c x) = Some c"
| "refers (Registered c) = Some c"
| "refers (InFlight c) = Some c"
| "refers (Finished c) = Some c"
| "refers (Signalled c) = Some c"
| "refers (Deleted c) = Some c"
| "refers (Returned c x) = Some c"

fun active :: "'r pc \<Rightarrow> bool" where
  "active Idle = False"
| "active (ReturnedDup c x) = False"
| "active (Returned c x) = False"
| "active _ = True"

fun has_invoked :: "'r pc \<Rightarrow> bool" where
  "has_invoked (InFlight c) = True"
| "has_invoked (Finished c) = True"
| "has_invoked (Signalled c) = True"
| "has_invoked (Deleted c) = True"
| "has_invoked (Returned c x) = True"
| "has_invoked _ = False"

text \<open>
  What the position of a call says about the record it refers to: the counter is 1
  from registration until \<open>Done\<close> and 0 after, the result is assigned once \<open>fn\<close> has
  returned, and a call that has returned has read the result of its record when the
  counter was 0.
\<close>

fun cell_ok :: "'r pc \<Rightarrow> (nat \<rightharpoonup> 'r call) \<Rightarrow> bool" where
  "cell_ok Idle h = True"
| "cell_ok Entered h = True"
| "cell_ok (Waiting c) h = (c \<in> dom h)"
| "cell_ok (ReturnedDup c x) h = (\<exists>cl. h c = Some cl \<and> wg cl = 0 \<and> val_err cl = x \<and> x \<noteq> None)"
| "cell_ok (Registered c) h = (\<exists>cl. h c = Some cl \<and> wg cl = 1)"
| "cell_ok (InFlight c) h = (\<exists>cl. h c = Some cl \<and> wg cl = 1)"
| "cell_ok (Finished c) h = (\<exists>cl. h c = Some cl \<and> wg cl = 1 \<and> val_err cl \<noteq> None)"
| "cell_ok (Signalled c) h = (\<exists>cl. h c = Some cl \<and> wg cl = 0 \<and> val_err cl \<noteq> None)"
| "cell_ok (Deleted c) h = (\<exists>cl. h c = Some cl \<and> wg cl = 0 \<and> val_err cl \<noteq> None)"
| "cell_ok (Returned c x) h = (\<exists>cl. h c = Some cl \<and> wg cl = 0 \<and> val_err cl = x \<and> x \<noteq> None)"

text \<open>The invariant of the reachable states.\<close>

definition flight_inv :: "(nat \<Rightarrow> string) \<Rightarrow> 'r world \<Rightarrow> bool" where
  "flight_inv key s \<longleftrightarrow>
     (\<forall>t c. holds (pc s t) = Some c \<longrightarrow> the_map s (key t) = Some c) \<and>
     (\<forall>k c. the_map s k = Some c \<longrightarrow> (\<exists>t. key t = k \<and> holds (pc s t) = Some c)) \<and>
     (\<forall>t t' c. created (pc s t) = Some c \<and> created (pc s t') = Some c \<longrightarrow> t = t') \<and>
     (\<forall>t c. refers (pc s t) = Some c \<longrightarrow> c < next_call s) \<and>
     (\<forall>t c. refers (pc s t) = Some c \<longrightarrow> (\<exists>t0. key t0 = key t \<and> created (pc s t0) = Some c)) \<and>
     (\<forall>t. cell_ok (pc s t) (heap s)) \<and>
     (\<forall>c cl. heap s c = Some cl \<and> wg cl = 0 \<longrightarrow> val_err cl \<noteq> None) \<and>
     (\<forall>t. t \<in> set (invoked s) \<longleftrightarrow> has_invoked (pc s t)) \<and>
     distinct (invoked s)"

section \<open>Properties of the consistent-hash ring\<close>

subsection \<open>Binary search\<close>

text \<open>
  The search reads \<open>f\<close> only at indices from \<open>i\<close> up to \<open>j - 1\<close>: in \<open>Get\<close>, only at
  indices of \<open>keys\<close>.
\<close>

lemma Search_loop_range:
  assumes "\<And>h. i \<le> h \<Longrightarrow> h < j \<Longrightarrow> f h = g h"
  shows "Search_loop f i j = Search_loop g i j"
  using assms
proof (induction f i j rule: Search_loop.induct)
  case (1 f i j)
  show ?case
  proof (cases "i < j")
    case False
    then show ?thesis by (simp add: Search_loop.simps[of f] Search_loop.simps[of g])
  next
    case True
    define h where "h = (i + j) div 2"
    have hb: "i \<le> h" "h < j" using True by (auto simp: h_def)
    then have fg: "f h = g h" by (rule "1.prems")
    show ?thesis
    proof (cases "f h")
      case False
      have "Search_loop f (h + 1) j = Search_loop g (h + 1) j"
        using "1.IH"(1)[OF True h_def False] "1.prems" hb by simp
      then show ?thesis
        using True False fg
        by (simp add: Search_loop.simps[of f i j] Search_loop.simps[of g i j] h_def Let_def)
    next
      case fh: True
      have "Search_loop f i h = Search_loop g i h"
        using "1.IH"(2)[OF True h_def] fh "1.prems" hb by simp
      then show ?thesis
        using True fh fg
        by (simp add: Search_loop.simps[of f i j] Search_loop.simps[of g i j] h_def Let_def)
    qed
  qed
qed

lemma Search_loop_spec:
  assumes "i \<le> j"
    and "\<And>a b. i \<le> a \<Longrightarrow> a \<le> b \<Longrightarrow> b < j \<Longrightarrow> f a \<Longrightarrow> f b"
  shows "i \<le> Search_loop f i j \<and> Search_loop f i j \<le> j \<and>
         (\<forall>a. i \<le> a \<and> a < Search_loop f i j \<longrightarrow> \<not> f a) \<and>
         (\<forall>a. Search_loop f i j \<le> a \<and> a < j \<longrightarrow> f a)"
  using assms
proof (induction f i j rule: Search_loop.induct)
  case (1 f i j)
  show ?case
  proof (cases "i < j")
    case False
    with "1.prems" have "i = j" by simp
    then show ?thesis by (subst (1 2 3 4) Search_loop.simps) auto
  next
    case True
    define h where "h = (i + j) div 2"
    have hb: "i \<le> h" "h < j" using True by (auto simp: h_def)
    show ?thesis
    proof (cases "f h")
      case False
      have eq: "Search_loop f i j = Search_loop f (h + 1) j"
        using True False by (subst Search_loop.simps) (simp add: h_def Let_def)
      have mono: "\<And>a b. h + 1 \<le> a \<Longrightarrow> a \<le> b \<Longrightarrow> b < j \<Longrightarrow> f a \<Longrightarrow> f b"
        using "1.prems"(2) hb by (meson add_increasing2 order_trans zero_le_one le_less_trans less_imp_le zle_add1_eq_le)
      have IH: "h + 1 \<le> Search_loop f (h + 1) j \<and> Search_loop f (h + 1) j \<le> j \<and>
         (\<forall>a. h + 1 \<le> a \<and> a < Search_loop f (h + 1) j \<longrightarrow> \<not> f a) \<and>
         (\<forall>a. Search_loop f (h + 1) j \<le> a \<and> a < j \<longrightarrow> f a)"
        using "1.IH"(1)[OF True h_def False _ mono] hb by simp
      have low: "\<not> f a" if "i \<le> a" "a \<le> h" for a
        using "1.prems"(2)[of a h] that hb False by auto
      show ?thesis unfolding eq using IH hb low
        by (smt (verit))
    next
      case fh: True
      have eq: "Search_loop f i j = Search_loop f i h"
        using True fh by (subst Search_loop.simps) (simp add: h_def Let_def)
      have mono: "\<And>a b. i \<le> a \<Longrightarrow> a \<le> b \<Longrightarrow> b < h \<Longrightarrow> f a \<Longrightarrow> f b"
        using "1.prems"(2) hb by (meson less_trans)
      have IH: "i \<le> Search_loop f i h \<and> Search_loop f i h \<le> h \<and>
         (\<forall>a. i \<le> a \<and> a < Search_loop f i h \<longrightarrow> \<not> f a) \<and>
         (\<forall>a. Search_loop f i h \<le> a \<and> a < h \<longrightarrow> f a)"
        using "1.IH"(2)[OF True h_def _ _ mono] fh hb by simp
      have up: "f a" if "h \<le> a" "a < j" for a
        using "1.prems"(2)[of h a] that hb fh by auto
      show ?thesis unfolding eq using IH hb up
        by (smt (verit))
    qed
  qed
qed

lemma Add_replicas_hash [simp]: "hash (Add_replicas key i m) = hash m"
  by (induction key i m rule: Add_replicas.induct)
     (subst Add_replicas.simps, simp add: Let_def)

lemma Add_replicas_replicas [simp]: "replicas (Add_replicas key i m) = replicas m"
  by (induction key i m rule: Add_replicas.induct)
     (subst Add_replicas.simps, simp add: Let_def)

lemma Add_replicas_keys:
  "keys (Add_replicas key i m) =
     keys m @ map (\<lambda>j. uint (hash m (Itoa j @ key))) [i..replicas m - 1]"
proof (induction key i m rule: Add_replicas.induct)
  case (1 key i m)
  show ?case
  proof (cases "i < replicas m")
    case True
    then have "[i..replicas m - 1] = i # [i + 1..replicas m - 1]"
      by (simp add: upto_rec1)
    with True "1.IH" show ?thesis
      by (subst Add_replicas.simps) (simp add: Let_def)
  next
    case False
    then show ?thesis by (subst Add_replicas.simps) simp
  qed
qed

lemma Add_replicas_dom:
  "set (keys m) \<subseteq> dom (hashMap m) \<Longrightarrow>
   set (keys (Add_replicas key i m)) \<subseteq> dom (hashMap (Add_replicas key i m))"
proof (induction key i m rule: Add_replicas.induct)
  case (1 key i m)
  show ?case
  proof (cases "i < replicas m")
    case True
    define m' where "m' = m\<lparr> keys := keys m @ [uint (hash m (Itoa i @ key))],
       hashMap := (hashMap m)(uint (hash m (Itoa i @ key)) \<mapsto> key) \<rparr>"
    have eq: "Add_replicas key i m = Add_replicas key (i + 1) m'"
      using True by (subst Add_replicas.simps) (simp add: Let_def m'_def)
    have "set (keys m') \<subseteq> dom (hashMap m')"
      using "1.prems" by (auto simp: m'_def)
    then show ?thesis
      unfolding eq by (rule "1.IH"[OF True refl, folded m'_def])
  next
    case False
    with "1.prems" show ?thesis by (subst (1 2) Add_replicas.simps) simp
  qed
qed

lemma fold_Add_replicas_hash [simp]:
  "hash (fold (\<lambda>key. Add_replicas key 0) ps m) = hash m"
  by (induction ps arbitrary: m) simp_all

lemma fold_Add_replicas_replicas [simp]:
  "replicas (fold (\<lambda>key. Add_replicas key 0) ps m) = replicas m"
  by (induction ps arbitrary: m) simp_all

lemma fold_Add_replicas_keys:
  "keys (fold (\<lambda>key. Add_replicas key 0) ps m) =
     keys m @ concat (map (\<lambda>p. map (\<lambda>i. uint (hash m (Itoa i @ p))) [0..replicas m - 1]) ps)"
  by (induction ps arbitrary: m) (simp_all add: Add_replicas_keys)

lemma fold_Add_replicas_dom:
  "set (keys m) \<subseteq> dom (hashMap m) \<Longrightarrow>
   set (keys (fold (\<lambda>key. Add_replicas key 0) ps m))
     \<subseteq> dom (hashMap (fold (\<lambda>key. Add_replicas key 0) ps m))"
  by (induction ps arbitrary: m) (simp_all add: Add_replicas_dom)

lemma ring_inv_New: "ring_inv (consistenthash_New r fn)"
  by (simp add: ring_inv_def consistenthash_New_def)

lemma ring_inv_Add: "ring_inv m \<Longrightarrow> ring_inv (Map_Add ps m)"
  using fold_Add_replicas_dom[of m ps]
  by (simp add: ring_inv_def Map_Add_def Let_def Ints_def)

lemma ring_inv_fold: "ring_inv m \<Longrightarrow> ring_inv (fold Map_Add pss m)"
  by (induction pss arbitrary: m) (simp_all add: ring_inv_Add)

lemma Map_Get_sorted:
  assumes inv: "ring_inv m" and ne: "keys m \<noteq> []"
  shows "\<exists>peer. hashMap m (if {x \<in> set (keys m). uint (hash m k) \<le> x} = {}
                           then Min (set (keys m))
                           else Min {x \<in> set (keys m). uint (hash m k) \<le> x}) = Some peer
               \<and> Map_Get k m = Some peer"
proof -
  define h where "h = uint (hash m k)"
  define n where "n = int (length (keys m))"
  define f where "f = (\<lambda>i. keys m ! nat i \<ge> h)"
  define r where "r = Search n f"
  define S where "S = {x \<in> set (keys m). h \<le> x}"
  have srt: "sorted (keys m)" and dm: "set (keys m) \<subseteq> dom (hashMap m)"
    using inv by (simp_all add: ring_inv_def)
  have npos: "0 < n" using ne by (simp add: n_def)
  have mono: "\<And>a b. 0 \<le> a \<Longrightarrow> a \<le> b \<Longrightarrow> b < n \<Longrightarrow> f a \<Longrightarrow> f b"
  proof -
    fix a b :: int assume ab: "0 \<le> a" "a \<le> b" "b < n" "f a"
    then have "keys m ! nat a \<le> keys m ! nat b"
      using srt by (intro sorted_nth_mono) (auto simp: n_def)
    with ab show "f b" by (simp add: f_def)
  qed
  have sp: "0 \<le> r \<and> r \<le> n \<and> (\<forall>a. 0 \<le> a \<and> a < r \<longrightarrow> \<not> f a) \<and> (\<forall>a. r \<le> a \<and> a < n \<longrightarrow> f a)"
    unfolding r_def Search_def using Search_loop_spec[of 0 n f, OF _ mono] npos by simp
  define idx where "idx = (if r = n then 0 else r)"
  have idx: "0 \<le> idx" "idx < n" using sp npos by (auto simp: idx_def)
  have get: "Map_Get k m = Some (case hashMap m (keys m ! nat idx) of None \<Rightarrow> [] | Some p \<Rightarrow> p)"
    using ne idx
    by (auto simp: Map_Get_def IsEmpty_def Let_def h_def n_def f_def r_def idx_def)
  have mem: "keys m ! nat idx \<in> set (keys m)"
    using idx by (simp add: n_def)
  then obtain peer where peer: "hashMap m (keys m ! nat idx) = Some peer"
    using dm by blast
  have nth_ex: "\<exists>a. 0 \<le> a \<and> a < n \<and> x = keys m ! nat a" if "x \<in> set (keys m)" for x
  proof -
    from that obtain j where "j < length (keys m)" "x = keys m ! j"
      by (auto simp: in_set_conv_nth)
    then show ?thesis by (intro exI[of _ "int j"]) (simp add: n_def)
  qed
  have pt: "keys m ! nat idx = (if S = {} then Min (set (keys m)) else Min S)"
  proof (cases "r = n")
    case True
    have "S = {}"
    proof (rule ccontr)
      assume "S \<noteq> {}"
      then obtain x where "x \<in> set (keys m)" "h \<le> x" by (auto simp: S_def)
      then obtain a where "0 \<le> a" "a < n" "x = keys m ! nat a" using nth_ex by blast
      with sp True \<open>h \<le> x\<close> show False by (auto simp: f_def)
    qed
    moreover have "keys m ! 0 = Min (set (keys m))"
    proof (rule sym, rule Min_eqI)
      show "finite (set (keys m))" by simp
      show "keys m ! 0 \<in> set (keys m)" using ne by simp
      fix y assume "y \<in> set (keys m)"
      then obtain j where "j < length (keys m)" "y = keys m ! j"
        by (auto simp: in_set_conv_nth)
      then show "keys m ! 0 \<le> y" using srt by (simp add: sorted_nth_mono)
    qed
    ultimately show ?thesis using True by (simp add: idx_def)
  next
    case False
    then have rn: "r < n" using sp by simp
    have fr: "f r" using sp rn by simp
    have "nat r < length (keys m)" using rn sp unfolding n_def by linarith
    then have "keys m ! nat r \<in> set (keys m)" by simp
    with fr have inS: "keys m ! nat r \<in> S"
      by (simp add: S_def f_def)
    have "Min S = keys m ! nat r"
    proof (rule Min_eqI)
      show "finite S" by (simp add: S_def)
      show "keys m ! nat r \<in> S" by (rule inS)
      fix y assume "y \<in> S"
      then have y: "y \<in> set (keys m)" "h \<le> y" by (simp_all add: S_def)
      then obtain a where a: "0 \<le> a" "a < n" "y = keys m ! nat a" using nth_ex by blast
      with y have "f a" by (simp add: f_def)
      with sp a have "r \<le> a" by (meson not_le)
      then have "nat r \<le> nat a" "nat a < length (keys m)"
        using a unfolding n_def by linarith+
      then show "keys m ! nat r \<le> y"
        using srt a by (simp add: sorted_nth_mono)
    qed
    with inS False show ?thesis by (auto simp: idx_def)
  qed
  show ?thesis
    unfolding h_def[symmetric] S_def[symmetric] pt[symmetric]
    using get peer by simp
qed

text \<open>
  Claim C1. For a ring built by \<open>New\<close> and any sequence of \<open>Add\<close> calls, \<open>Get k\<close>
  on an empty ring returns the empty string. On a non-empty ring it returns, with
  \<open>h\<close> the hash of \<open>k\<close>, the peer that \<open>hashMap\<close> stores at the smallest stored
  point that is at least \<open>h\<close>, and when no stored point is at least \<open>h\<close>, the peer
  stored at the smallest point of the ring, which is the first one of \<open>keys\<close>.
\<close>

theorem Map_Get_nearest:
  "let m = fold Map_Add pss (consistenthash_New r fn);
       h = uint (hash m k);
       S = {x \<in> set (keys m). h \<le> x}
   in if keys m = [] then Map_Get k m = Some []
      else hd (keys m) = Min (set (keys m)) \<and>
           (\<exists>peer. hashMap m (if S = {} then Min (set (keys m)) else Min S) = Some peer
                    \<and> Map_Get k m = Some peer)"
proof -
  define m where "m = fold Map_Add pss (consistenthash_New r fn)"
  have inv: "ring_inv m"
    unfolding m_def by (rule ring_inv_fold[OF ring_inv_New])
  show ?thesis
  proof (cases "keys m = []")
    case True
    then show ?thesis
      by (simp add: m_def[symmetric] Let_def Map_Get_def IsEmpty_def)
  next
    case False
    have "sorted (keys m)" using inv by (simp add: ring_inv_def)
    with False have "hd (keys m) = Min (set (keys m))"
      by (cases "keys m") (auto intro!: Min_eqI[symmetric])
    with False Map_Get_sorted[OF inv False, of k] show ?thesis
      by (simp add: m_def[symmetric] Let_def)
  qed
qed

text \<open>
  Claim C5. \<open>Add\<close> appends, for every added peer \<open>p\<close>, the points
  \<open>hash (Itoa i @ p)\<close> for \<open>i\<close> from \<open>0\<close> up to \<open>replicas - 1\<close>, which are
  \<open>replicas\<close> points for each peer (none when \<open>replicas\<close> is not positive), and leaves
  the point list sorted in ascending order.
\<close>

theorem Map_Add_points:
  "let pts = (\<lambda>p. map (\<lambda>i. uint (hash m (Itoa i @ p))) [0..replicas m - 1])
   in keys (Map_Add ps m) = sort (keys m @ concat (map pts ps)) \<and>
      (\<forall>p. length (pts p) = nat (replicas m)) \<and>
      sorted (keys (Map_Add ps m))"
  by (simp add: Map_Add_def Let_def Ints_def fold_Add_replicas_keys)

section \<open>Properties of ByteView and of the sinks\<close>

lemma cloneBytes_id [simp]: "cloneBytes b = b"
  by (simp add: cloneBytes_def copy_builtin_def)

lemma trunc_copy_take: "trunc_copy d src = take (length d) src"
  by (auto simp: trunc_copy_def copy_builtin_def min_def Let_def)

lemma nat_int_diff: "\<not> off < 0 \<Longrightarrow> nat (int a - off) = a - nat off"
  by arith

text \<open>
  Claim C9. \<open>ReadAt p off\<close> with a negative offset returns the invalid-offset error
  and reads nothing; with an offset at or past the length of the view it returns
  end-of-stream and reads nothing; otherwise it copies \<open>n\<close> bytes, the smaller of the
  length of \<open>p\<close> and the number of bytes from the offset on, and signals end-of-stream
  together with \<open>n\<close> exactly when \<open>n\<close> is less than the length of \<open>p\<close>. It never
  panics.
\<close>

theorem ReadAt_spec:
  "ReadAt p off v =
     (if off < 0 then Inr (0, Some ErrInvalidOffset, p)
      else if ByteView_Len v \<le> off then Inr (0, Some EOF, p)
      else
        (let n = min (int (length p)) (ByteView_Len v - off)
         in Inr (n, (if n < int (length p) then Some EOF else None),
                 take (nat n) (drop (nat off) (String v)) @ drop (nat n) p)))"
  by (cases "bv_b v")
     (auto simp: ReadAt_def ByteView_Len_def SliceFrom_def Copy_def copy_builtin_def
        String_def Let_def min_def nat_int_diff)

text \<open>
  Claim C4 fails at the string sink. \<open>stringSink.SetProto\<close> assigns the marshalled
  bytes to \<open>s.v.b\<close> and leaves \<open>s.v.s\<close> as it was, where \<open>SetString\<close> of the same sink
  and the setters of the four other sinks reset the field of the view that they do
  not use. A view shows its string when its bytes are \<open>nil\<close>. So when \<open>proto.Marshal\<close>
  returns a \<open>nil\<close> slice and no error, a string sink that was set before keeps the
  old string in its view, while the target holds the empty string. Below, a new
  \<open>StringSink\<close> is set to \<open>old\<close> and then to a message that marshals to \<open>nil\<close>: the
  call succeeds, the target is empty and the view still reads \<open>old\<close>. The allocating
  sink, set in the same way, ends with an empty target and an empty view.
\<close>

theorem stringSink_SetProto_stale_view:
  "SetString (\<lambda>b m. (None, m)) ''old''
       (stringSink (Some []) \<lparr> bv_b = None, bv_s = [] \<rparr> :: unit Sink)
     = Inr (None, stringSink (Some ''old'') \<lparr> bv_b = None, bv_s = ''old'' \<rparr>) \<and>
   SetProto (\<lambda>m. Inr None) (\<lambda>b m. (None, m)) ()
       (stringSink (Some ''old'') \<lparr> bv_b = None, bv_s = ''old'' \<rparr>)
     = Inr (None, stringSink (Some []) \<lparr> bv_b = None, bv_s = ''old'' \<rparr>) \<and>
   String (view (stringSink (Some []) \<lparr> bv_b = None, bv_s = ''old'' \<rparr> :: unit Sink)) = ''old'' \<and>
   SetString (\<lambda>b m. (None, m)) ''old''
       (allocBytesSink (Some []) \<lparr> bv_b = None, bv_s = [] \<rparr> :: unit Sink)
     = Inr (None, allocBytesSink (Some ''old'') \<lparr> bv_b = None, bv_s = ''old'' \<rparr>) \<and>
   SetProto (\<lambda>m. Inr None) (\<lambda>b m. (None, m)) ()
       (allocBytesSink (Some ''old'') \<lparr> bv_b = None, bv_s = ''old'' \<rparr>)
     = Inr (None, allocBytesSink (Some []) \<lparr> bv_b = None, bv_s = [] \<rparr>) \<and>
   String (view (allocBytesSink (Some []) \<lparr> bv_b = None, bv_s = [] \<rparr> :: unit Sink)) = []"
  by (simp add: String_def contents_def alloc_setBytesOwned_def cloneBytes_def copy_builtin_def)

text \<open>
  Every other successful set agrees with the target. After a successful \<open>SetString\<close>,
  \<open>SetBytes\<close> or \<open>SetProto\<close> on any of the five sinks, but for \<open>SetProto\<close> on the string
  sink with a message that marshals to \<open>nil\<close>, the contents of \<open>view()\<close> are what the
  caller sees at the target: the string behind \<open>sp\<close>, the \<open>ByteView\<close> behind \<open>dst\<close>,
  the bytes behind \<open>dst\<close> of the allocating sink; the message of the structured sink
  is what \<open>Unmarshal\<close> makes of the bytes of the view; and the target of the
  truncating sink holds the first bytes of the view, as many as the target had room
  for.
\<close>

theorem sink_view_agrees:
  assumes "SetString unm x s = Inr (None, s') \<or>
           SetBytes unm x s = Inr (None, s') \<or>
           (SetProto mar unm m s = Inr (None, s') \<and>
            (\<forall>sp v. s = stringSink sp v \<longrightarrow> mar m \<noteq> Inr None))"
  shows "case s' of
           stringSink sp v \<Rightarrow> sp = Some (String (view s'))
         | byteViewSink dst \<Rightarrow> dst = view s'
         | protoSink dst v \<Rightarrow>
             (case s of protoSink dst0 _ \<Rightarrow> unm (ByteSlice (view s')) dst0 = (None, dst)
                      | _ \<Rightarrow> False)
         | allocBytesSink dst v \<Rightarrow> dst = Some (ByteSlice (view s'))
         | truncBytesSink dst v \<Rightarrow>
             (case s of truncBytesSink (Some d0) _ \<Rightarrow>
                          dst = Some (take (length d0) (ByteSlice (view s')))
                      | _ \<Rightarrow> False)"
  using assms
  by (cases s)
     (auto simp: String_def ByteSlice_def contents_def alloc_setBytesOwned_def
        trunc_setBytesOwned_def trunc_copy_take Let_def
        split: option.splits sum.splits prod.splits if_splits)

text \<open>
  The theorem at a truncating sink with room for ten bytes that is given three, and at
  a string sink that is given a message.
\<close>

theorem sink_view_agrees_witness:
  "SetBytes (\<lambda>b m. (None, b)) ''abc''
       (truncBytesSink (Some ''0123456789'') \<lparr> bv_b = None, bv_s = [] \<rparr> :: string Sink)
     = Inr (None, truncBytesSink (Some ''abc'') \<lparr> bv_b = Some ''abc'', bv_s = [] \<rparr>) \<and>
   Some ''abc'' = Some (take (length ''0123456789'')
       (ByteSlice (view (truncBytesSink (Some ''abc'') \<lparr> bv_b = Some ''abc'', bv_s = [] \<rparr> :: string Sink)))) \<and>
   SetProto (\<lambda>m. Inr (Some m)) (\<lambda>b m. (None, b)) ''xy''
       (stringSink (Some ''old'') \<lparr> bv_b = None, bv_s = ''old'' \<rparr> :: string Sink)
     = Inr (None, stringSink (Some ''xy'') \<lparr> bv_b = Some ''xy'', bv_s = ''old'' \<rparr>) \<and>
   Some ''xy'' = Some (String (view (stringSink (Some ''xy'') \<lparr> bv_b = Some ''xy'', bv_s = ''old'' \<rparr> :: string Sink)))"
proof -
  have t: "SetBytes (\<lambda>b m. (None, b)) ''abc''
       (truncBytesSink (Some ''0123456789'') \<lparr> bv_b = None, bv_s = [] \<rparr> :: string Sink)
     = Inr (None, truncBytesSink (Some ''abc'') \<lparr> bv_b = Some ''abc'', bv_s = [] \<rparr>)"
    by (simp add: trunc_setBytesOwned_def trunc_copy_take contents_def)
  have p: "SetProto (\<lambda>m. Inr (Some m)) (\<lambda>b m. (None, b)) ''xy''
       (stringSink (Some ''old'') \<lparr> bv_b = None, bv_s = ''old'' \<rparr> :: string Sink)
     = Inr (None, stringSink (Some ''xy'') \<lparr> bv_b = Some ''xy'', bv_s = ''old'' \<rparr>)"
    by (simp add: contents_def)
  from sink_view_agrees[of "\<lambda>b m. (None, b)" "''abc''"
      "truncBytesSink (Some ''0123456789'') \<lparr> bv_b = None, bv_s = [] \<rparr> :: string Sink"
      "truncBytesSink (Some ''abc'') \<lparr> bv_b = Some ''abc'', bv_s = [] \<rparr>"] t
  have "Some ''abc'' = Some (take (length ''0123456789'')
       (ByteSlice (view (truncBytesSink (Some ''abc'') \<lparr> bv_b = Some ''abc'', bv_s = [] \<rparr> :: string Sink))))"
    by simp
  moreover from sink_view_agrees[of "\<lambda>b m. (None, b)" "[]"
      "stringSink (Some ''old'') \<lparr> bv_b = None, bv_s = ''old'' \<rparr> :: string Sink"
      "stringSink (Some ''xy'') \<lparr> bv_b = Some ''xy'', bv_s = ''old'' \<rparr>"
      "\<lambda>m. Inr (Some m)" "''xy''"] p
  have "Some ''xy'' = Some (String (view (stringSink (Some ''xy'') \<lparr> bv_b = Some ''xy'', bv_s = ''old'' \<rparr> :: string Sink)))"
    by simp
  ultimately show ?thesis using t p by simp
qed

section \<open>Properties of the LRU cache\<close>

subsection \<open>The invariant\<close>

lemma ok_ll: "cache_ok c \<Longrightarrow> cache c = Some m \<Longrightarrow> \<exists>l. ll c = Some l"
  by (auto simp: cache_ok_def split: option.splits)

lemma ok_NoneD: "cache_ok c \<Longrightarrow> cache c = None \<Longrightarrow> ll c = None"
  by (simp add: cache_ok_def)

lemma ok_distinct: "cache_ok c \<Longrightarrow> cache c = Some m \<Longrightarrow> ll c = Some l \<Longrightarrow> distinct l"
  by (simp add: cache_ok_def)

lemma ok_fresh: "cache_ok c \<Longrightarrow> cache c = Some m \<Longrightarrow> ll c = Some l \<Longrightarrow> e \<in> set l \<Longrightarrow> e < fresh c"
  by (simp add: cache_ok_def)

lemma ok_elem:
  "cache_ok c \<Longrightarrow> cache c = Some m \<Longrightarrow> ll c = Some l \<Longrightarrow> e \<in> set l \<Longrightarrow>
   \<exists>k v. entries c e = Some (k, v) \<and> m k = Some e"
  by (simp add: cache_ok_def)

lemma ok_map:
  "cache_ok c \<Longrightarrow> cache c = Some m \<Longrightarrow> ll c = Some l \<Longrightarrow> m k = Some e \<Longrightarrow>
   e \<in> set l \<and> (\<exists>v. entries c e = Some (k, v))"
  by (simp add: cache_ok_def)

lemma cache_okI:
  assumes "cache c = Some m" "ll c = Some l" "distinct l"
    "\<And>e. e \<in> set l \<Longrightarrow> e < fresh c"
    "\<And>e. e \<in> set l \<Longrightarrow> \<exists>k v. entries c e = Some (k, v) \<and> m k = Some e"
    "\<And>k e. m k = Some e \<Longrightarrow> e \<in> set l \<and> (\<exists>v. entries c e = Some (k, v))"
  shows "cache_ok c"
  using assms by (auto simp: cache_ok_def)

lemma map_filter_all_Some:
  "(\<And>x. x \<in> set xs \<Longrightarrow> f x \<noteq> None) \<Longrightarrow> List.map_filter f xs = map (\<lambda>x. the (f x)) xs"
  by (induction xs) (auto simp: List.map_filter_simps split: option.splits)

lemma items_map:
  assumes "cache_ok c" "cache c = Some m" "ll c = Some l"
  shows "items c = map (\<lambda>e. the (entries c e)) l"
proof -
  have "\<And>e. e \<in> set l \<Longrightarrow> entries c e \<noteq> None"
    using ok_elem[OF assms] by fastforce
  then show ?thesis
    using assms(3) by (simp add: items_def map_filter_all_Some)
qed

lemma items_nil: "cache_ok c \<Longrightarrow> cache c = None \<Longrightarrow> items c = []"
  by (simp add: items_def cache_ok_def)

lemma key_elem_iff:
  assumes "cache_ok c" "cache c = Some m" "ll c = Some l" "x \<in> set l" "m k = Some e"
  shows "fst (the (entries c x)) \<noteq> k \<longleftrightarrow> x \<noteq> e"
proof -
  from ok_elem[OF assms(1,2,3,4)] obtain kx vx
    where x: "entries c x = Some (kx, vx)" "m kx = Some x" by auto
  from ok_map[OF assms(1,2,3,5)] obtain v where e: "entries c e = Some (k, v)" by auto
  show ?thesis using x e assms(5) by auto
qed

lemma remove1_filter_items:
  assumes "cache_ok c" "cache c = Some m" "ll c = Some l" "m k = Some e"
  shows "map (\<lambda>x. the (entries c x)) (remove1 e l) = filter (\<lambda>kv. fst kv \<noteq> k) (items c)"
proof -
  have d: "distinct l" by (rule ok_distinct[OF assms(1,2,3)])
  have "removeAll e l = filter (\<lambda>x. x \<noteq> e) l"
    by (induction l) auto
  then have r: "remove1 e l = filter (\<lambda>x. x \<noteq> e) l"
    using d by (simp add: distinct_remove1_removeAll)
  have "filter (\<lambda>kv. fst kv \<noteq> k) (map (\<lambda>x. the (entries c x)) l)
      = map (\<lambda>x. the (entries c x)) (filter (\<lambda>x. x \<noteq> e) l)"
    unfolding filter_map o_def
    using key_elem_iff[OF assms(1,2,3) _ assms(4)]
    by (intro arg_cong[where f="map _"] filter_cong) auto
  with r show ?thesis
    by (simp add: items_map[OF assms(1,2,3)])
qed

lemma remove1_last:
  assumes d: "distinct l" and ne: "l \<noteq> []"
  shows "remove1 (last l) l = butlast l"
proof -
  have l: "butlast l @ [last l] = l" using ne by simp
  then have "distinct (butlast l @ [last l])" using d by simp
  then have "last l \<notin> set (butlast l)" by simp
  then have "remove1 (last l) (butlast l @ [last l]) = butlast l"
    by (simp add: remove1_append)
  with l show ?thesis by simp
qed

lemma items_keys_iff:
  assumes "cache_ok c" "cache c = Some m" "ll c = Some l"
  shows "k \<in> fst ` set (items c) \<longleftrightarrow> m k \<noteq> None"
proof
  assume "k \<in> fst ` set (items c)"
  then obtain e where e: "e \<in> set l" "fst (the (entries c e)) = k"
    by (auto simp: items_map[OF assms])
  from ok_elem[OF assms e(1)] e(2) show "m k \<noteq> None" by auto
next
  assume "m k \<noteq> None"
  then obtain e where "m k = Some e" by auto
  from ok_map[OF assms this] obtain v where "e \<in> set l" "entries c e = Some (k, v)" by auto
  then show "k \<in> fst ` set (items c)"
    by (force simp: items_map[OF assms] image_iff)
qed

lemma items_lookup:
  assumes "cache_ok c" "cache c = Some m" "ll c = Some l" "m k = Some e" "entries c e = Some (k', v)"
  shows "k' = k \<and> (k, v) \<in> set (items c)"
proof -
  from ok_map[OF assms(1,2,3,4)] assms(5) have "e \<in> set l" "k' = k" by auto
  then show ?thesis using assms(5)
    by (force simp: items_map[OF assms(1,2,3)] image_iff)
qed

lemma distinct_keys:
  assumes "cache_ok c"
  shows "distinct (map fst (items c))"
proof (cases "cache c")
  case None
  then show ?thesis using assms by (simp add: items_nil)
next
  case (Some m)
  then obtain l where l: "ll c = Some l" using ok_ll[OF assms] by blast
  have "inj_on (\<lambda>e. fst (the (entries c e))) (set l)"
  proof (rule inj_onI)
    fix x y assume xy: "x \<in> set l" "y \<in> set l"
      and eq: "fst (the (entries c x)) = fst (the (entries c y))"
    from ok_elem[OF assms Some l xy(1)] ok_elem[OF assms Some l xy(2)] eq
    show "x = y" by auto
  qed
  then show ?thesis
    using ok_distinct[OF assms Some l]
    by (simp add: items_map[OF assms Some l] distinct_map o_def)
qed

subsection \<open>The operations on a cache that satisfies the invariant\<close>

lemma removeElement_ok:
  assumes ok: "cache_ok c" and m: "cache c = Some m" and l: "ll c = Some l" and k: "m k = Some e"
  shows "\<exists>c' v. removeElement e c = Inr c' \<and> cache_ok c' \<and> cache c' \<noteq> None \<and>
           (k, v) \<in> set (items c) \<and>
           items c' = filter (\<lambda>kv. fst kv \<noteq> k) (items c) \<and>
           items c' = map (\<lambda>x. the (entries c x)) (remove1 e l) \<and>
           calls c' = calls c @ (if OnEvicted c then [(k, v)] else []) \<and>
           MaxEntries c' = MaxEntries c \<and> OnEvicted c' = OnEvicted c"
proof -
  from ok_map[OF ok m l k] obtain v where el: "e \<in> set l" and ev: "entries c e = Some (k, v)"
    by auto
  define c' where "c' = c\<lparr> ll := Some (remove1 e l), cache := Some (m(k := None)),
      calls := calls c @ (if OnEvicted c then [(k, v)] else []) \<rparr>"
  have eq: "removeElement e c = Inr c'"
    using m l el ev by (simp add: removeElement_def list_Remove_def Let_def c'_def)
  have d: "distinct l" by (rule ok_distinct[OF ok m l])
  have ok': "cache_ok c'"
  proof (rule cache_okI)
    show "cache c' = Some (m(k := None))" by (simp add: c'_def)
    show "ll c' = Some (remove1 e l)" by (simp add: c'_def)
    show "distinct (remove1 e l)" using d by simp
  next
    fix x assume "x \<in> set (remove1 e l)"
    then have x: "x \<in> set l" "x \<noteq> e" using d by auto
    show "x < fresh c'" using ok_fresh[OF ok m l x(1)] by (simp add: c'_def)
    from ok_elem[OF ok m l x(1)] obtain kx vx
      where kx: "entries c x = Some (kx, vx)" "m kx = Some x" by auto
    with k x(2) have "kx \<noteq> k" by auto
    with kx show "\<exists>k' v'. entries c' x = Some (k', v') \<and> (m(k := None)) k' = Some x"
      by (auto simp: c'_def)
  next
    fix k' x assume "(m(k := None)) k' = Some x"
    then have kx: "k' \<noteq> k" "m k' = Some x" by (auto split: if_splits)
    from ok_map[OF ok m l kx(2)] obtain vx where x: "x \<in> set l" "entries c x = Some (k', vx)"
      by auto
    with ev kx(1) have "x \<noteq> e" by auto
    with x d show "x \<in> set (remove1 e l) \<and> (\<exists>v. entries c' x = Some (k', v))"
      by (auto simp: c'_def)
  qed
  have it: "items c' = map (\<lambda>x. the (entries c x)) (remove1 e l)"
    using items_map[OF ok', of "m(k := None)" "remove1 e l"] by (simp add: c'_def)
  have "(k, v) \<in> set (items c)"
    using items_lookup[OF ok m l k ev] by simp
  then show ?thesis
    using eq ok' it remove1_filter_items[OF ok m l k]
    by (intro exI[of _ c'] exI[of _ v]) (simp add: c'_def)
qed

lemma filter_key_single:
  "distinct (map fst xs) \<Longrightarrow> (k, v) \<in> set xs \<Longrightarrow> filter (\<lambda>kv. fst kv = k) xs = [(k, v)]"
proof (induction xs)
  case Nil
  then show ?case by simp
next
  case (Cons a xs)
  show ?case
  proof (cases "fst a = k")
    case True
    with Cons.prems have "a = (k, v)"
      by (cases a) (auto simp: image_iff)
    moreover have "filter (\<lambda>kv. fst kv = k) xs = []"
      using Cons.prems True by (auto simp: filter_empty_conv image_iff)
    ultimately show ?thesis by simp
  next
    case False
    with Cons show ?thesis by auto
  qed
qed

lemma filter_key_none:
  "k \<notin> fst ` set xs \<Longrightarrow> filter (\<lambda>kv. fst kv = k) xs = [] \<and> filter (\<lambda>kv. fst kv \<noteq> k) xs = xs"
  by (auto simp: filter_empty_conv filter_id_conv image_iff)

lemma Remove_ok:
  assumes ok: "cache_ok c"
  shows "\<exists>c'. Cache_Remove k c = Inr c' \<and> cache_ok c' \<and> (cache c' = None \<longleftrightarrow> cache c = None) \<and>
           items c' = filter (\<lambda>kv. fst kv \<noteq> k) (items c) \<and>
           calls c' = calls c @ (if OnEvicted c then filter (\<lambda>kv. fst kv = k) (items c) else []) \<and>
           MaxEntries c' = MaxEntries c \<and> OnEvicted c' = OnEvicted c"
proof (cases "cache c")
  case None
  then show ?thesis using ok by (simp add: Cache_Remove_def items_nil)
next
  case (Some m)
  then obtain l where l: "ll c = Some l" using ok_ll[OF ok] by blast
  show ?thesis
  proof (cases "m k")
    case None
    then have "k \<notin> fst ` set (items c)" using items_keys_iff[OF ok Some l, of k] by simp
    then show ?thesis
      using None Some ok filter_key_none[of k "items c"] by (simp add: Cache_Remove_def)
  next
    case (Some e)
    from removeElement_ok[OF ok \<open>cache c = Some m\<close> l Some] obtain c' v where
      c': "removeElement e c = Inr c'" "cache_ok c'" "cache c' \<noteq> None" "(k, v) \<in> set (items c)"
        "items c' = filter (\<lambda>kv. fst kv \<noteq> k) (items c)"
        "calls c' = calls c @ (if OnEvicted c then [(k, v)] else [])"
        "MaxEntries c' = MaxEntries c" "OnEvicted c' = OnEvicted c"
      by blast
    have "filter (\<lambda>kv. fst kv = k) (items c) = [(k, v)]"
      by (rule filter_key_single[OF distinct_keys[OF ok] c'(4)])
    then show ?thesis
      using c' Some \<open>cache c = Some m\<close> by (simp add: Cache_Remove_def)
  qed
qed

lemma RemoveOldest_ok:
  assumes ok: "cache_ok c"
  shows "\<exists>c'. Cache_RemoveOldest c = Inr c' \<and> cache_ok c' \<and> (cache c' = None \<longleftrightarrow> cache c = None) \<and>
           items c' = butlast (items c) \<and>
           calls c' = calls c @ (if OnEvicted c \<and> items c \<noteq> [] then [last (items c)] else []) \<and>
           MaxEntries c' = MaxEntries c \<and> OnEvicted c' = OnEvicted c"
proof (cases "cache c")
  case None
  then show ?thesis using ok by (simp add: Cache_RemoveOldest_def items_nil)
next
  case (Some m)
  then obtain l where l: "ll c = Some l" using ok_ll[OF ok] by blast
  have it: "items c = map (\<lambda>x. the (entries c x)) l" by (rule items_map[OF ok Some l])
  show ?thesis
  proof (cases "l = []")
    case True
    then show ?thesis
      using Some l ok it by (simp add: Cache_RemoveOldest_def Back_def)
  next
    case False
    then have "last l \<in> set l" by simp
    from ok_elem[OF ok Some l this] obtain k v
      where kv: "entries c (last l) = Some (k, v)" "m k = Some (last l)" by auto
    from removeElement_ok[OF ok Some l kv(2)] obtain c' v' where
      c': "removeElement (last l) c = Inr c'" "cache_ok c'" "cache c' \<noteq> None"
        "items c' = map (\<lambda>x. the (entries c x)) (remove1 (last l) l)"
        "calls c' = calls c @ (if OnEvicted c then [(k, v')] else [])"
        "(k, v') \<in> set (items c)"
        "MaxEntries c' = MaxEntries c" "OnEvicted c' = OnEvicted c"
      by blast
    from items_lookup[OF ok Some l kv(2) kv(1)] have "(k, v) \<in> set (items c)" by simp
    with c'(6) distinct_keys[OF ok] have "v' = v"
      by (meson eq_key_imp_eq_value)
    have lst: "last (items c) = (k, v)"
      using False kv(1) by (simp add: it last_map)
    have "items c' = butlast (items c)"
      using c'(4) remove1_last[OF ok_distinct[OF ok Some l] False] by (simp add: it map_butlast)
    then show ?thesis
      using c' Some l False lst \<open>v' = v\<close> it
      by (simp add: Cache_RemoveOldest_def Back_def)
  qed
qed

lemma Len_ok:
  assumes "cache_ok c"
  shows "Cache_Len c = Inr (int (length (items c)))"
proof (cases "cache c")
  case None
  then show ?thesis using assms by (simp add: Cache_Len_def items_nil)
next
  case (Some m)
  then obtain l where l: "ll c = Some l" using ok_ll[OF assms] by blast
  show ?thesis
    using Some l by (simp add: Cache_Len_def list_Len_def items_map[OF assms Some l])
qed

lemma map_of_items:
  assumes ok: "cache_ok c" and m: "cache c = Some m" and l: "ll c = Some l"
  shows "map_of (items c) k = (case m k of None \<Rightarrow> None | Some e \<Rightarrow> map_option snd (entries c e))"
proof (cases "m k")
  case None
  then have "k \<notin> fst ` set (items c)" using items_keys_iff[OF ok m l, of k] by simp
  then show ?thesis using None by (simp add: map_of_eq_None_iff)
next
  case (Some e)
  from ok_map[OF ok m l Some] obtain v where v: "entries c e = Some (k, v)" by auto
  from items_lookup[OF ok m l Some v] have "(k, v) \<in> set (items c)" by simp
  then have "map_of (items c) k = Some v"
    using distinct_keys[OF ok] by simp
  then show ?thesis using Some v by simp
qed

lemma Get_ok:
  assumes ok: "cache_ok c"
  shows "\<exists>c'. Cache_Get k c = Inr (map_of (items c) k, c') \<and> cache_ok c' \<and>
           (cache c' = None \<longleftrightarrow> cache c = None) \<and>
           items c' = (case map_of (items c) k of
                         None \<Rightarrow> items c
                       | Some v \<Rightarrow> (k, v) # filter (\<lambda>kv. fst kv \<noteq> k) (items c)) \<and>
           calls c' = calls c \<and> MaxEntries c' = MaxEntries c \<and> OnEvicted c' = OnEvicted c"
proof (cases "cache c")
  case None
  then show ?thesis using ok by (simp add: Cache_Get_def items_nil)
next
  case (Some m)
  then obtain l where l: "ll c = Some l" using ok_ll[OF ok] by blast
  note mo = map_of_items[OF ok Some l, of k]
  show ?thesis
  proof (cases "m k")
    case None
    then show ?thesis using Some ok mo by (simp add: Cache_Get_def)
  next
    case e: (Some e)
    from ok_map[OF ok Some l e] obtain v where el: "e \<in> set l" and v: "entries c e = Some (k, v)"
      by auto
    define c' where "c' = c\<lparr> ll := Some (e # remove1 e l) \<rparr>"
    have eq: "Cache_Get k c = Inr (Some v, c')"
      using Some l e el v by (simp add: Cache_Get_def MoveToFront_def c'_def)
    have d: "distinct l" by (rule ok_distinct[OF ok Some l])
    have ok': "cache_ok c'"
    proof (rule cache_okI)
      show "cache c' = Some m" by (simp add: c'_def Some)
      show "ll c' = Some (e # remove1 e l)" by (simp add: c'_def)
      show "distinct (e # remove1 e l)" using d by simp
    next
      fix x assume "x \<in> set (e # remove1 e l)"
      then have x: "x \<in> set l" using el by (auto simp: set_remove1_eq[OF d])
      show "x < fresh c'" using ok_fresh[OF ok Some l x] by (simp add: c'_def)
      show "\<exists>k v. entries c' x = Some (k, v) \<and> m k = Some x"
        using ok_elem[OF ok Some l x] by (simp add: c'_def)
    next
      fix k' x assume "m k' = Some x"
      from ok_map[OF ok Some l this] el
      show "x \<in> set (e # remove1 e l) \<and> (\<exists>v. entries c' x = Some (k', v))"
        by (auto simp: c'_def set_remove1_eq[OF d])
    qed
    have "items c' = map (\<lambda>x. the (entries c x)) (e # remove1 e l)"
      using items_map[OF ok', of m "e # remove1 e l"] Some by (simp add: c'_def)
    then have "items c' = (k, v) # filter (\<lambda>kv. fst kv \<noteq> k) (items c)"
      using v remove1_filter_items[OF ok Some l e] by simp
    then show ?thesis
      using eq ok' mo e v Some by (simp add: c'_def)
  qed
qed

lemma Add_present:
  assumes ok: "cache_ok c" and m: "cache c = Some m" and l: "ll c = Some l"
    and e: "m k = Some e"
  shows "\<exists>c'. Cache_Add k v c = Inr c' \<and> cache_ok c' \<and> cache c' \<noteq> None \<and>
           items c' = (k, v) # filter (\<lambda>kv. fst kv \<noteq> k) (items c) \<and>
           calls c' = calls c \<and> MaxEntries c' = MaxEntries c \<and> OnEvicted c' = OnEvicted c"
proof -
  from ok_map[OF ok m l e] obtain v0 where el: "e \<in> set l" and v0: "entries c e = Some (k, v0)"
    by auto
  define c' where "c' = c\<lparr> ll := Some (e # remove1 e l), entries := (entries c)(e \<mapsto> (k, v)) \<rparr>"
  have eq: "Cache_Add k v c = Inr c'"
    using m l e el v0 by (simp add: Cache_Add_def MoveToFront_def c'_def)
  have d: "distinct l" by (rule ok_distinct[OF ok m l])
  have ok': "cache_ok c'"
  proof (rule cache_okI)
    show "cache c' = Some m" by (simp add: c'_def m)
    show "ll c' = Some (e # remove1 e l)" by (simp add: c'_def)
    show "distinct (e # remove1 e l)" using d by simp
  next
    fix x assume "x \<in> set (e # remove1 e l)"
    then have x: "x \<in> set l" using el by (auto simp: set_remove1_eq[OF d])
    show "x < fresh c'" using ok_fresh[OF ok m l x] by (simp add: c'_def)
    show "\<exists>k v. entries c' x = Some (k, v) \<and> m k = Some x"
      using ok_elem[OF ok m l x] e by (auto simp: c'_def)
  next
    fix k' x assume kx: "m k' = Some x"
    from ok_map[OF ok m l kx] obtain vx where x: "x \<in> set l" "entries c x = Some (k', vx)"
      by auto
    have "\<exists>v. entries c' x = Some (k', v)"
      using x v0 by (cases "x = e") (auto simp: c'_def)
    with x el show "x \<in> set (e # remove1 e l) \<and> (\<exists>v. entries c' x = Some (k', v))"
      by (auto simp: set_remove1_eq[OF d])
  qed
  have ne: "e \<notin> set (remove1 e l)" using d by simp
  have "items c' = map (\<lambda>x. the (entries c' x)) (e # remove1 e l)"
    using items_map[OF ok', of m "e # remove1 e l"] m by (simp add: c'_def)
  also have "\<dots> = (k, v) # map (\<lambda>x. the (entries c' x)) (remove1 e l)"
    by (simp add: c'_def)
  also have "map (\<lambda>x. the (entries c' x)) (remove1 e l) = map (\<lambda>x. the (entries c x)) (remove1 e l)"
    using ne by (intro map_cong) (auto simp: c'_def)
  finally have "items c' = (k, v) # filter (\<lambda>kv. fst kv \<noteq> k) (items c)"
    using remove1_filter_items[OF ok m l e] by simp
  then show ?thesis
    using eq ok' m by (simp add: c'_def)
qed

lemma Add_absent:
  assumes ok: "cache_ok c" and m: "cache c = Some m" and l: "ll c = Some l"
    and e: "m k = None"
  shows "\<exists>c'. Cache_Add k v c = Inr c' \<and> cache_ok c' \<and> cache c' \<noteq> None \<and>
           items c' = (if MaxEntries c \<noteq> 0 \<and> int (length (items c)) + 1 > MaxEntries c
                       then butlast ((k, v) # items c) else (k, v) # items c) \<and>
           calls c' = calls c @
             (if OnEvicted c \<and> MaxEntries c \<noteq> 0 \<and> int (length (items c)) + 1 > MaxEntries c
              then [last ((k, v) # items c)] else []) \<and>
           MaxEntries c' = MaxEntries c \<and> OnEvicted c' = OnEvicted c"
proof -
  define a where "a = fresh c"
  define c2 where "c2 = c\<lparr> fresh := Suc a, entries := (entries c)(a \<mapsto> (k, v)),
      ll := Some (a # l), cache := Some (m(k \<mapsto> a)) \<rparr>"
  have al: "a \<notin> set l" using ok_fresh[OF ok m l, of a] by (auto simp: a_def)
  have eq: "Cache_Add k v c =
      (if MaxEntries c \<noteq> 0 \<and> int (length (a # l)) > MaxEntries c
       then Cache_RemoveOldest c2 else Inr c2)"
    using m l e by (simp add: Cache_Add_def PushFront_def list_Len_def Let_def c2_def a_def)
  have ok2: "cache_ok c2"
  proof (rule cache_okI)
    show "cache c2 = Some (m(k \<mapsto> a))" by (simp add: c2_def)
    show "ll c2 = Some (a # l)" by (simp add: c2_def)
    show "distinct (a # l)" using al ok_distinct[OF ok m l] by simp
  next
    fix x assume x: "x \<in> set (a # l)"
    show "x < fresh c2" using x ok_fresh[OF ok m l, of x] by (auto simp: c2_def a_def)
    show "\<exists>k' v'. entries c2 x = Some (k', v') \<and> (m(k \<mapsto> a)) k' = Some x"
    proof (cases "x = a")
      case True
      then show ?thesis by (simp add: c2_def)
    next
      case False
      with x have xl: "x \<in> set l" by simp
      from ok_elem[OF ok m l xl] obtain kx vx
        where kx: "entries c x = Some (kx, vx)" "m kx = Some x" by auto
      with e have "kx \<noteq> k" by auto
      with kx False show ?thesis by (auto simp: c2_def)
    qed
  next
    fix k' x assume kx: "(m(k \<mapsto> a)) k' = Some x"
    show "x \<in> set (a # l) \<and> (\<exists>v. entries c2 x = Some (k', v))"
    proof (cases "k' = k")
      case True
      with kx show ?thesis by (simp add: c2_def)
    next
      case False
      with kx have "m k' = Some x" by simp
      from ok_map[OF ok m l this] obtain vx where x: "x \<in> set l" "entries c x = Some (k', vx)"
        by auto
      with al have "x \<noteq> a" by auto
      with x show ?thesis by (simp add: c2_def)
    qed
  qed
  have "items c2 = map (\<lambda>x. the (entries c2 x)) (a # l)"
    using items_map[OF ok2, of "m(k \<mapsto> a)" "a # l"] by (simp add: c2_def)
  also have "\<dots> = (k, v) # map (\<lambda>x. the (entries c2 x)) l"
    by (simp add: c2_def)
  also have "map (\<lambda>x. the (entries c2 x)) l = map (\<lambda>x. the (entries c x)) l"
    using al by (intro map_cong) (auto simp: c2_def)
  finally have it2: "items c2 = (k, v) # items c"
    by (simp add: items_map[OF ok m l])
  have len: "length (items c) = length l" by (simp add: items_map[OF ok m l])
  have f2: "calls c2 = calls c" "MaxEntries c2 = MaxEntries c" "OnEvicted c2 = OnEvicted c"
    "cache c2 \<noteq> None"
    by (simp_all add: c2_def)
  define ev where "ev \<longleftrightarrow> MaxEntries c \<noteq> 0 \<and> int (length (items c)) + 1 > MaxEntries c"
  have big: "(MaxEntries c \<noteq> 0 \<and> int (length (a # l)) > MaxEntries c) \<longleftrightarrow> ev"
    unfolding len ev_def by (simp only: list.size of_nat_Suc of_nat_add) arith
  have eq': "Cache_Add k v c = (if ev then Cache_RemoveOldest c2 else Inr c2)"
    unfolding eq big ..
  have "\<exists>c'. Cache_Add k v c = Inr c' \<and> cache_ok c' \<and> cache c' \<noteq> None \<and>
           items c' = (if ev then butlast ((k, v) # items c) else (k, v) # items c) \<and>
           calls c' = calls c @ (if OnEvicted c \<and> ev then [last ((k, v) # items c)] else []) \<and>
           MaxEntries c' = MaxEntries c \<and> OnEvicted c' = OnEvicted c"
  proof (cases ev)
    case True
    obtain c' where
      c': "Cache_RemoveOldest c2 = Inr c' \<and> cache_ok c' \<and> (cache c' = None) = (cache c2 = None) \<and>
        items c' = butlast (items c2) \<and>
        calls c' = calls c2 @ (if OnEvicted c2 \<and> items c2 \<noteq> [] then [last (items c2)] else []) \<and>
        MaxEntries c' = MaxEntries c2 \<and> OnEvicted c' = OnEvicted c2"
      using RemoveOldest_ok[OF ok2] by (rule exE)
    have "Cache_Add k v c = Inr c'" using c' eq' True by simp
    moreover have "cache_ok c'" "cache c' \<noteq> None" "MaxEntries c' = MaxEntries c"
      "OnEvicted c' = OnEvicted c"
      using c' f2 by simp_all
    moreover have "items c' = butlast ((k, v) # items c)"
      using c' it2 by simp
    moreover have "calls c' = calls c @ (if OnEvicted c then [last ((k, v) # items c)] else [])"
      using c' it2 f2 by simp
    ultimately show ?thesis
      using True by (intro exI[of _ c']) simp
  next
    case False
    have "Cache_Add k v c = Inr c2" using eq' False by simp
    then show ?thesis
      using ok2 False it2 f2 by (intro exI[of _ c2]) simp
  qed
  then show ?thesis unfolding ev_def .
qed

lemma Add_ok:
  assumes ok: "cache_ok c"
  shows "\<exists>c'. Cache_Add k v c = Inr c' \<and> cache_ok c' \<and> cache c' \<noteq> None \<and> ll c' \<noteq> None \<and>
           items c' =
             (if k \<in> fst ` set (items c) then (k, v) # filter (\<lambda>kv. fst kv \<noteq> k) (items c)
              else if MaxEntries c \<noteq> 0 \<and> int (length (items c)) + 1 > MaxEntries c
                   then butlast ((k, v) # items c) else (k, v) # items c) \<and>
           calls c' = calls c @
             (if OnEvicted c \<and> k \<notin> fst ` set (items c) \<and> MaxEntries c \<noteq> 0 \<and>
                 int (length (items c)) + 1 > MaxEntries c
              then [last ((k, v) # items c)] else []) \<and>
           MaxEntries c' = MaxEntries c \<and> OnEvicted c' = OnEvicted c"
proof -
  define c1 where "c1 = (if cache c = None then c\<lparr> cache := Some Map.empty, ll := Some [] \<rparr> else c)"
  have eq1: "Cache_Add k v c = Cache_Add k v c1"
    by (cases "cache c") (simp_all add: Cache_Add_def c1_def)
  have ok1: "cache_ok c1"
    using ok by (auto simp: c1_def cache_ok_def)
  have it1: "items c1 = items c"
    using ok by (auto simp: c1_def items_def cache_ok_def)
  have f1: "calls c1 = calls c" "MaxEntries c1 = MaxEntries c" "OnEvicted c1 = OnEvicted c"
    by (simp_all add: c1_def)
  obtain m where m: "cache c1 = Some m" by (cases "cache c") (auto simp: c1_def)
  then obtain l where l: "ll c1 = Some l" using ok_ll[OF ok1] by blast
  have res: "\<exists>c'. Cache_Add k v c1 = Inr c' \<and> cache_ok c' \<and> cache c' \<noteq> None \<and>
           items c' =
             (if k \<in> fst ` set (items c1) then (k, v) # filter (\<lambda>kv. fst kv \<noteq> k) (items c1)
              else if MaxEntries c1 \<noteq> 0 \<and> int (length (items c1)) + 1 > MaxEntries c1
                   then butlast ((k, v) # items c1) else (k, v) # items c1) \<and>
           calls c' = calls c1 @
             (if OnEvicted c1 \<and> k \<notin> fst ` set (items c1) \<and> MaxEntries c1 \<noteq> 0 \<and>
                 int (length (items c1)) + 1 > MaxEntries c1
              then [last ((k, v) # items c1)] else []) \<and>
           MaxEntries c' = MaxEntries c1 \<and> OnEvicted c' = OnEvicted c1"
  proof (cases "m k")
    case None
    then have "k \<notin> fst ` set (items c1)" using items_keys_iff[OF ok1 m l, of k] by simp
    then show ?thesis using Add_absent[OF ok1 m l None, of v] by simp
  next
    case (Some e)
    then have "k \<in> fst ` set (items c1)" using items_keys_iff[OF ok1 m l, of k] by simp
    then show ?thesis using Add_present[OF ok1 m l Some, of v] by simp
  qed
  then obtain c' where c': "Cache_Add k v c1 = Inr c'" "cache_ok c'" "cache c' \<noteq> None"
    and rest: "items c' =
             (if k \<in> fst ` set (items c1) then (k, v) # filter (\<lambda>kv. fst kv \<noteq> k) (items c1)
              else if MaxEntries c1 \<noteq> 0 \<and> int (length (items c1)) + 1 > MaxEntries c1
                   then butlast ((k, v) # items c1) else (k, v) # items c1)"
           "calls c' = calls c1 @
             (if OnEvicted c1 \<and> k \<notin> fst ` set (items c1) \<and> MaxEntries c1 \<noteq> 0 \<and>
                 int (length (items c1)) + 1 > MaxEntries c1
              then [last ((k, v) # items c1)] else [])"
           "MaxEntries c' = MaxEntries c1" "OnEvicted c' = OnEvicted c1"
    by blast
  have "ll c' \<noteq> None" using ok_ll[OF c'(2)] c'(3) by auto
  with c' rest show ?thesis unfolding eq1 it1 f1
    by (intro exI[of _ c']) (simp only: simp_thms)
qed

lemma Clear_range_ok:
  assumes "\<And>k e. m k = Some e \<Longrightarrow> \<exists>v. entries c e = Some (k, v)"
  shows "Clear_range order m c =
           Inr (c\<lparr> calls := calls c @
             List.map_filter (\<lambda>k. case m k of None \<Rightarrow> None | Some e \<Rightarrow> entries c e) order \<rparr>)"
  using assms
proof (induction order arbitrary: c)
  case Nil
  then show ?case by (simp add: List.map_filter_simps)
next
  case (Cons key rest)
  show ?case
  proof (cases "m key")
    case None
    then show ?thesis using Cons by (simp add: List.map_filter_simps)
  next
    case (Some e)
    from Cons.prems[OF Some] obtain v where v: "entries c e = Some (key, v)" by auto
    have "Clear_range rest m (c\<lparr> calls := calls c @ [(key, v)] \<rparr>) =
        Inr (c\<lparr> calls := calls c @ [(key, v)] \<rparr>\<lparr> calls := calls (c\<lparr> calls := calls c @ [(key, v)] \<rparr>) @
             List.map_filter (\<lambda>k. case m k of None \<Rightarrow> None
                | Some e \<Rightarrow> entries (c\<lparr> calls := calls c @ [(key, v)] \<rparr>) e) rest \<rparr>)"
      by (rule Cons.IH) (use Cons.prems in simp)
    moreover have "entries (c\<lparr> calls := calls c @ [(key, v)] \<rparr>) = entries c" by simp
    ultimately have "Clear_range rest m (c\<lparr> calls := calls c @ [(key, v)] \<rparr>) =
        Inr (c\<lparr> calls := (calls c @ [(key, v)]) @
             List.map_filter (\<lambda>k. case m k of None \<Rightarrow> None | Some e \<Rightarrow> entries c e) rest \<rparr>)"
      by (simp only:) simp
    then show ?thesis using Some v by (simp add: List.map_filter_simps)
  qed
qed

lemma Clear_ok:
  assumes ok: "cache_ok c"
  shows "\<exists>c'. Cache_Clear order c = Inr c' \<and> cache_ok c' \<and> cache c' = None \<and> ll c' = None \<and>
           items c' = [] \<and>
           calls c' = calls c @
             (if OnEvicted c
              then List.map_filter (\<lambda>k. map_option (Pair k) (map_of (items c) k)) order
              else []) \<and>
           MaxEntries c' = MaxEntries c \<and> OnEvicted c' = OnEvicted c"
proof (cases "cache c")
  case None
  then have "items c = []" using ok by (simp add: items_nil)
  then have "List.map_filter (\<lambda>k. map_option (Pair k) (map_of (items c) k)) order = []"
    by (induction order) (simp_all add: List.map_filter_simps)
  then show ?thesis
    using None by (simp add: Cache_Clear_def cache_ok_def items_def)
next
  case (Some m)
  then obtain l where l: "ll c = Some l" using ok_ll[OF ok] by blast
  have en: "\<And>k e. m k = Some e \<Longrightarrow> \<exists>v. entries c e = Some (k, v)"
    using ok_map[OF ok Some l] by blast
  have "(\<lambda>k. case m k of None \<Rightarrow> None | Some e \<Rightarrow> entries c e)
      = (\<lambda>k. map_option (Pair k) (map_of (items c) k))"
  proof
    fix k show "(case m k of None \<Rightarrow> None | Some e \<Rightarrow> entries c e)
        = map_option (Pair k) (map_of (items c) k)"
      using en[of k] by (auto simp: map_of_items[OF ok Some l] split: option.splits)
  qed
  then show ?thesis
    using Some Clear_range_ok[of m c order, OF en]
    by (simp add: Cache_Clear_def cache_ok_def items_def)
qed

lemma map_keys_values:
  assumes "distinct (map fst xs)"
  shows "map ((\<lambda>k. (k, the (map_of xs k))) \<circ> fst) xs = xs"
proof (rule map_idI)
  fix x assume x: "x \<in> set xs"
  obtain k v where kv: "x = (k, v)" by (cases x)
  have "map_of xs (fst x) = Some (snd x)"
    using assms x unfolding kv by simp
  then show "((\<lambda>k. (k, the (map_of xs k))) \<circ> fst) x = x" by simp
qed

lemma range_order_mset:
  assumes "distinct order" "set order = fst ` set xs" "distinct (map fst xs)"
  shows "mset (List.map_filter (\<lambda>k. map_option (Pair k) (map_of xs k)) order) = mset xs"
proof -
  have "\<And>k. k \<in> set order \<Longrightarrow> map_option (Pair k) (map_of xs k) \<noteq> None"
    using assms(2) by (auto simp: map_of_eq_None_iff)
  then have "List.map_filter (\<lambda>k. map_option (Pair k) (map_of xs k)) order
      = map (\<lambda>k. the (map_option (Pair k) (map_of xs k))) order"
    by (rule map_filter_all_Some)
  also have "\<dots> = map (\<lambda>k. (k, the (map_of xs k))) order"
    using assms(2) by (intro map_cong) (auto simp: option.map_sel map_of_eq_None_iff)
  finally have "mset (List.map_filter (\<lambda>k. map_option (Pair k) (map_of xs k)) order)
      = image_mset (\<lambda>k. (k, the (map_of xs k))) (mset order)"
    by simp
  also have "mset order = image_mset fst (mset xs)"
  proof -
    have "set order = set (map fst xs)" using assms(2) by simp
    then have "mset order = mset (map fst xs)"
      by (rule iffD1[OF set_eq_iff_mset_eq_distinct[OF assms(1,3)]])
    then show ?thesis by simp
  qed
  also have "image_mset (\<lambda>k. (k, the (map_of xs k))) (image_mset fst (mset xs))
      = mset (map ((\<lambda>k. (k, the (map_of xs k))) \<circ> fst) xs)"
    by (simp add: multiset.map_comp)
  also have "\<dots> = mset xs" by (simp only: map_keys_values[OF assms(3)])
  finally show ?thesis .
qed

lemma initial_ok:
  assumes "c \<in> initial n cb"
  shows "cache_ok c \<and> items c = [] \<and> MaxEntries c = n \<and> OnEvicted c = cb \<and> calls c = []"
  using assms
  by (auto simp: initial_def lru_New_def Cache_zero_def cache_ok_def items_def
      List.map_filter_simps)

lemma apply_op_ok:
  assumes ok: "cache_ok c"
  shows "\<exists>out c'. apply_op x c = Inr (out, c') \<and> cache_ok c' \<and>
           MaxEntries c' = MaxEntries c \<and> OnEvicted c' = OnEvicted c \<and>
           (bounded c \<longrightarrow> bounded c')"
proof (cases x)
  case (Add k v)
  obtain c' where c': "Cache_Add k v c = Inr c' \<and> cache_ok c' \<and> cache c' \<noteq> None \<and> ll c' \<noteq> None \<and>
           items c' =
             (if k \<in> fst ` set (items c) then (k, v) # filter (\<lambda>kv. fst kv \<noteq> k) (items c)
              else if MaxEntries c \<noteq> 0 \<and> int (length (items c)) + 1 > MaxEntries c
                   then butlast ((k, v) # items c) else (k, v) # items c) \<and>
           calls c' = calls c @
             (if OnEvicted c \<and> k \<notin> fst ` set (items c) \<and> MaxEntries c \<noteq> 0 \<and>
                 int (length (items c)) + 1 > MaxEntries c
              then [last ((k, v) # items c)] else []) \<and>
           MaxEntries c' = MaxEntries c \<and> OnEvicted c' = OnEvicted c"
    using Add_ok[OF ok, of k v] by (rule exE)
  have "bounded c \<longrightarrow> bounded c'"
  proof (cases "k \<in> fst ` set (items c)")
    case True
    then obtain v0 where "(k, v0) \<in> set (items c)" by auto
    then have "filter (\<lambda>kv. fst kv = k) (items c) = [(k, v0)]"
      by (rule filter_key_single[OF distinct_keys[OF ok]])
    moreover have "length (items c) =
        length (filter (\<lambda>kv. fst kv = k) (items c)) + length (filter (\<lambda>kv. fst kv \<noteq> k) (items c))"
      using sum_length_filter_compl[of "\<lambda>kv. fst kv = k" "items c"] by simp
    ultimately have "length (items c') = length (items c)"
      using c' True by simp
    moreover have "MaxEntries c' = MaxEntries c" using c' by simp
    ultimately show ?thesis unfolding bounded_def by simp
  next
    case False
    then have it: "items c' = (if MaxEntries c \<noteq> 0 \<and> int (length (items c)) + 1 > MaxEntries c
                   then butlast ((k, v) # items c) else (k, v) # items c)"
      using c' by simp
    have "int (length (items c')) \<le> MaxEntries c" if "0 < MaxEntries c" "int (length (items c)) \<le> MaxEntries c"
    proof (cases "int (length (items c)) + 1 > MaxEntries c")
      case True
      then have "length (items c') = length (items c)" using it that by simp
      then show ?thesis using that by simp
    next
      case False
      then have "length (items c') = length (items c) + 1" using it by simp
      then show ?thesis using False by linarith
    qed
    moreover have "MaxEntries c' = MaxEntries c" using c' by simp
    ultimately show ?thesis unfolding bounded_def by simp
  qed
  then show ?thesis using c' Add by (intro exI[of _ Done] exI[of _ c']) simp
next
  case (Get k)
  obtain c' where c': "Cache_Get k c = Inr (map_of (items c) k, c') \<and> cache_ok c' \<and>
           (cache c' = None \<longleftrightarrow> cache c = None) \<and>
           items c' = (case map_of (items c) k of
                         None \<Rightarrow> items c
                       | Some v \<Rightarrow> (k, v) # filter (\<lambda>kv. fst kv \<noteq> k) (items c)) \<and>
           calls c' = calls c \<and> MaxEntries c' = MaxEntries c \<and> OnEvicted c' = OnEvicted c"
    using Get_ok[OF ok, of k] by (rule exE)
  have "length (items c') = length (items c)"
  proof (cases "map_of (items c) k")
    case None
    then show ?thesis using c' by simp
  next
    case (Some v)
    then have "(k, v) \<in> set (items c)" by (rule map_of_SomeD)
    then have "filter (\<lambda>kv. fst kv = k) (items c) = [(k, v)]"
      by (rule filter_key_single[OF distinct_keys[OF ok]])
    moreover have "length (items c) =
        length (filter (\<lambda>kv. fst kv = k) (items c)) + length (filter (\<lambda>kv. fst kv \<noteq> k) (items c))"
      using sum_length_filter_compl[of "\<lambda>kv. fst kv = k" "items c"] by simp
    ultimately show ?thesis using c' Some by simp
  qed
  moreover have "MaxEntries c' = MaxEntries c" using c' by simp
  ultimately have "bounded c \<longrightarrow> bounded c'" unfolding bounded_def by simp
  then show ?thesis using c' Get
    by (intro exI[of _ "Got (map_of (items c) k)"] exI[of _ c']) simp
next
  case (Remove k)
  obtain c' where c': "Cache_Remove k c = Inr c' \<and> cache_ok c' \<and> (cache c' = None \<longleftrightarrow> cache c = None) \<and>
           items c' = filter (\<lambda>kv. fst kv \<noteq> k) (items c) \<and>
           calls c' = calls c @ (if OnEvicted c then filter (\<lambda>kv. fst kv = k) (items c) else []) \<and>
           MaxEntries c' = MaxEntries c \<and> OnEvicted c' = OnEvicted c"
    using Remove_ok[OF ok, of k] by (rule exE)
  have "length (items c') \<le> length (items c)" using c' by simp
  moreover have "MaxEntries c' = MaxEntries c" using c' by simp
  ultimately have "bounded c \<longrightarrow> bounded c'" unfolding bounded_def by linarith
  then show ?thesis using c' Remove by (intro exI[of _ Done] exI[of _ c']) simp
next
  case RemoveOldest
  obtain c' where c': "Cache_RemoveOldest c = Inr c' \<and> cache_ok c' \<and>
           (cache c' = None \<longleftrightarrow> cache c = None) \<and>
           items c' = butlast (items c) \<and>
           calls c' = calls c @ (if OnEvicted c \<and> items c \<noteq> [] then [last (items c)] else []) \<and>
           MaxEntries c' = MaxEntries c \<and> OnEvicted c' = OnEvicted c"
    using RemoveOldest_ok[OF ok] by (rule exE)
  have "length (items c') \<le> length (items c)" using c' by simp
  moreover have "MaxEntries c' = MaxEntries c" using c' by simp
  ultimately have "bounded c \<longrightarrow> bounded c'" unfolding bounded_def by linarith
  then show ?thesis using c' RemoveOldest by (intro exI[of _ Done] exI[of _ c']) simp
next
  case Len
  then show ?thesis using Len_ok[OF ok] ok
    by (intro exI[of _ "Length (int (length (items c)))"] exI[of _ c]) simp
next
  case (Clear order)
  obtain c' where c': "Cache_Clear order c = Inr c' \<and> cache_ok c' \<and> cache c' = None \<and> ll c' = None \<and>
           items c' = [] \<and>
           calls c' = calls c @
             (if OnEvicted c
              then List.map_filter (\<lambda>k. map_option (Pair k) (map_of (items c) k)) order
              else []) \<and>
           MaxEntries c' = MaxEntries c \<and> OnEvicted c' = OnEvicted c"
    using Clear_ok[OF ok, of order] by (rule exE)
  then have "bounded c'" by (simp add: bounded_def)
  then show ?thesis using c' Clear by (intro exI[of _ Done] exI[of _ c']) simp
qed

lemma run_ok:
  assumes "cache_ok c"
  shows "\<exists>outs c'. run ops c = Inr (outs, c') \<and> cache_ok c' \<and>
           MaxEntries c' = MaxEntries c \<and> OnEvicted c' = OnEvicted c \<and>
           (bounded c \<longrightarrow> bounded c')"
  using assms
proof (induction ops arbitrary: c)
  case Nil
  then show ?case by simp
next
  case (Cons x xs)
  from apply_op_ok[OF Cons.prems, of x] obtain out c1 where
    c1: "apply_op x c = Inr (out, c1)" "cache_ok c1" "MaxEntries c1 = MaxEntries c"
      "OnEvicted c1 = OnEvicted c" "bounded c \<longrightarrow> bounded c1"
    by blast
  from Cons.IH[OF c1(2)] obtain outs c' where
    c': "run xs c1 = Inr (outs, c')" "cache_ok c'" "MaxEntries c' = MaxEntries c1"
      "OnEvicted c' = OnEvicted c1" "bounded c1 \<longrightarrow> bounded c'"
    by blast
  show ?case
    using c1 c' by (intro exI[of _ "out # outs"] exI[of _ c']) simp
qed

lemma reachable:
  assumes "c0 \<in> initial N cb"
  obtains outs c where "run ops c0 = Inr (outs, c)" "cache_ok c" "MaxEntries c = N"
    "OnEvicted c = cb" "bounded c"
proof -
  from initial_ok[OF assms] have i: "cache_ok c0" "items c0 = []" "MaxEntries c0 = N"
    "OnEvicted c0 = cb" by simp_all
  then have b: "bounded c0" by (simp add: bounded_def)
  from run_ok[OF i(1), of ops] obtain outs c where
    "run ops c0 = Inr (outs, c)" "cache_ok c" "MaxEntries c = MaxEntries c0"
    "OnEvicted c = OnEvicted c0" "bounded c0 \<longrightarrow> bounded c"
    by blast
  with i b that show ?thesis by simp
qed

subsection \<open>The claims\<close>

text \<open>
  Claim C2. Every sequence of operations on a cache built by \<open>New\<close>, or on the zero
  value, with \<open>MaxEntries = N\<close> runs without a panic, and in the cache it reaches:
  when \<open>N\<close> is positive, \<open>Len\<close> is at most \<open>N\<close>; \<open>Add\<close> of a key that is not stored
  puts the entry at the front and, when \<open>N\<close> is not zero and the length then exceeds
  \<open>N\<close>, removes the entry at the back; and when \<open>N\<close> is zero, \<open>Add\<close> removes no other
  entry and calls no eviction callback.
\<close>

theorem lru_capacity:
  assumes "c0 \<in> initial N cb"
  shows "\<exists>outs c. run ops c0 = Inr (outs, c) \<and>
           (0 < N \<longrightarrow> (\<exists>n. Cache_Len c = Inr n \<and> n \<le> N)) \<and>
           (\<forall>k v. k \<notin> fst ` set (items c) \<longrightarrow>
              (\<exists>c'. Cache_Add k v c = Inr c' \<and>
                    items c' = (if N \<noteq> 0 \<and> int (length (items c)) + 1 > N
                                then butlast ((k, v) # items c) else (k, v) # items c))) \<and>
           (N = 0 \<longrightarrow>
              (\<forall>k v. \<exists>c'. Cache_Add k v c = Inr c' \<and> calls c' = calls c \<and>
                  items c' = (k, v) # filter (\<lambda>kv. fst kv \<noteq> k) (items c)))"
proof -
  from reachable[OF assms, of ops] obtain outs c where
    c: "run ops c0 = Inr (outs, c)" "cache_ok c" "MaxEntries c = N" "bounded c"
    by blast
  define ev where "ev \<longleftrightarrow> N \<noteq> 0 \<and> int (length (items c)) + 1 > N"
  have len: "0 < N \<longrightarrow> (\<exists>n. Cache_Len c = Inr n \<and> n \<le> N)"
    using Len_ok[OF c(2)] c(3,4) by (simp add: bounded_def)
  have add: "\<exists>c'. Cache_Add k v c = Inr c' \<and>
           items c' =
             (if k \<in> fst ` set (items c) then (k, v) # filter (\<lambda>kv. fst kv \<noteq> k) (items c)
              else if ev then butlast ((k, v) # items c) else (k, v) # items c) \<and>
           calls c' = calls c @
             (if OnEvicted c \<and> k \<notin> fst ` set (items c) \<and> ev
              then [last ((k, v) # items c)] else [])" for k v
    using Add_ok[OF c(2), of k v] unfolding c(3) ev_def by blast
  have new: "\<exists>c'. Cache_Add k v c = Inr c' \<and>
                    items c' = (if ev then butlast ((k, v) # items c) else (k, v) # items c)"
    if "k \<notin> fst ` set (items c)" for k v
    using add[of k v] that by auto
  have zero: "\<exists>c'. Cache_Add k v c = Inr c' \<and> calls c' = calls c \<and>
                  items c' = (k, v) # filter (\<lambda>kv. fst kv \<noteq> k) (items c)"
    if "N = 0" for k v
  proof -
    have "\<not> ev" using that by (simp add: ev_def)
    with add[of k v] obtain c' where c': "Cache_Add k v c = Inr c'" "calls c' = calls c"
      "items c' = (if k \<in> fst ` set (items c) then (k, v) # filter (\<lambda>kv. fst kv \<noteq> k) (items c)
                   else (k, v) # items c)"
      by auto
    have "filter (\<lambda>kv. fst kv \<noteq> k) (items c) = items c" if "k \<notin> fst ` set (items c)"
      using filter_key_none[OF that] by simp
    with c' show ?thesis by (intro exI[of _ c']) auto
  qed
  have "run ops c0 = Inr (outs, c) \<and>
           (0 < N \<longrightarrow> (\<exists>n. Cache_Len c = Inr n \<and> n \<le> N)) \<and>
           (\<forall>k v. k \<notin> fst ` set (items c) \<longrightarrow>
              (\<exists>c'. Cache_Add k v c = Inr c' \<and>
                    items c' = (if ev then butlast ((k, v) # items c) else (k, v) # items c))) \<and>
           (N = 0 \<longrightarrow>
              (\<forall>k v. \<exists>c'. Cache_Add k v c = Inr c' \<and> calls c' = calls c \<and>
                  items c' = (k, v) # filter (\<lambda>kv. fst kv \<noteq> k) (items c)))"
    using c(1) len new zero by blast
  then show ?thesis
    unfolding ev_def by (intro exI[of _ outs] exI[of _ c])
qed

text \<open>
  The theorem at a cache of capacity two after three additions.
\<close>

theorem lru_capacity_witness:
  "(lru_New 2 :: (string, int) Cache) \<in> initial 2 False \<and> (0::int) < 2 \<and>
   (\<exists>outs c. run [Add ''a'' 1, Add ''b'' 2, Add ''c'' 3] (lru_New 2 :: (string, int) Cache)
                 = Inr (outs, c) \<and>
              (\<exists>n. Cache_Len c = Inr n \<and> n \<le> 2))"
proof -
  have h: "(lru_New 2 :: (string, int) Cache) \<in> initial 2 False"
    by (simp add: initial_def lru_New_def)
  from lru_capacity[OF h, of "[Add ''a'' 1, Add ''b'' 2, Add ''c'' 3]"] h
  show ?thesis by auto
qed

text \<open>
  Claim C7. In every cache reached from an initial one, \<open>Get\<close> of a stored key
  returns its value and moves its entry to the front of the list, leaving the order
  of the others. In a cache of capacity two, after adding \<open>a\<close> and \<open>b\<close>, getting \<open>a\<close>
  and adding \<open>c\<close>, the key \<open>b\<close> is a miss, \<open>a\<close> gives 1 and \<open>c\<close> gives 3.
\<close>

theorem lru_get_refresh:
  "(c0 \<in> initial N cb \<longrightarrow>
      (\<exists>outs c. run ops c0 = Inr (outs, c) \<and>
         (\<forall>k v. map_of (items c) k = Some v \<longrightarrow>
            (\<exists>c'. Cache_Get k c = Inr (Some v, c') \<and>
                  items c' = (k, v) # filter (\<lambda>kv. fst kv \<noteq> k) (items c))))) \<and>
   map_sum id fst
     (run [Add ''a'' 1, Add ''b'' 2, Get ''a'', Add ''c'' 3, Get ''b'', Get ''a'', Get ''c'']
        (lru_New 2 :: (string, int) Cache))
   = Inr [Done, Done, Got (Some 1), Done, Got None, Got (Some 1), Got (Some 3)]"
proof (intro conjI impI)
  assume "c0 \<in> initial N cb"
  from reachable[OF this, of ops] obtain outs c where
    c: "run ops c0 = Inr (outs, c)" "cache_ok c"
    by blast
  have "\<exists>c'. Cache_Get k c = Inr (Some v, c') \<and>
              items c' = (k, v) # filter (\<lambda>kv. fst kv \<noteq> k) (items c)"
    if "map_of (items c) k = Some v" for k v
    using Get_ok[OF c(2), of k] that by auto
  then show "\<exists>outs c. run ops c0 = Inr (outs, c) \<and>
         (\<forall>k v. map_of (items c) k = Some v \<longrightarrow>
            (\<exists>c'. Cache_Get k c = Inr (Some v, c') \<and>
                  items c' = (k, v) # filter (\<lambda>kv. fst kv \<noteq> k) (items c)))"
    using c(1) by (intro exI[of _ outs] exI[of _ c]) blast
next
  show "map_sum id fst
     (run [Add ''a'' 1, Add ''b'' 2, Get ''a'', Add ''c'' 3, Get ''b'', Get ''a'', Get ''c'']
        (lru_New 2 :: (string, int) Cache))
   = Inr [Done, Done, Got (Some 1), Done, Got None, Got (Some 1), Got (Some 3)]"
    by code_simp
qed

text \<open>
  The theorem at the cache of capacity two that holds \<open>a\<close> and \<open>b\<close>.
\<close>

theorem lru_get_refresh_witness:
  "(lru_New 2 :: (string, int) Cache) \<in> initial 2 False \<and>
   (\<exists>outs c c'. run [Add ''a'' 1, Add ''b'' 2] (lru_New 2 :: (string, int) Cache) = Inr (outs, c) \<and>
      map_of (items c) ''a'' = Some 1 \<and>
      Cache_Get ''a'' c = Inr (Some 1, c') \<and>
      items c' = [(''a'', 1), (''b'', 2)])"
proof -
  have h: "(lru_New 2 :: (string, int) Cache) \<in> initial 2 False"
    by (simp add: initial_def lru_New_def)
  from lru_get_refresh[of "lru_New 2 :: (string, int) Cache" 2 False "[Add ''a'' 1, Add ''b'' 2]"] h
  obtain outs c where
    c: "run [Add ''a'' 1, Add ''b'' 2] (lru_New 2 :: (string, int) Cache) = Inr (outs, c)"
    and g: "\<And>k v. map_of (items c) k = Some v \<Longrightarrow>
            \<exists>c'. Cache_Get k c = Inr (Some v, c') \<and>
                  items c' = (k, v) # filter (\<lambda>kv. fst kv \<noteq> k) (items c)"
    by blast
  have "map_sum id (\<lambda>r. items (snd r))
          (run [Add ''a'' 1, Add ''b'' 2] (lru_New 2 :: (string, int) Cache))
        = Inr [(''b'', 2), (''a'', 1)]"
    by code_simp
  then have it: "items c = [(''b'', 2), (''a'', 1)]" unfolding c by simp
  then have m: "map_of (items c) ''a'' = Some 1" by simp
  from g[OF m] obtain c' where "Cache_Get ''a'' c = Inr (Some 1, c')"
    "items c' = (''a'', 1) # filter (\<lambda>kv. fst kv \<noteq> ''a'') (items c)" by blast
  then show ?thesis using h c m it by (intro conjI exI[of _ outs] exI[of _ c] exI[of _ c']) simp_all
qed

text \<open>
  The callback, for keys that are equal to themselves. In every cache reached from
  an initial one with a callback set, each operation calls \<open>OnEvicted\<close> once for each
  entry it removes, with the key and the value of that entry, before it returns,
  and for no other: \<open>Remove\<close> for the entry of the key when there is one,
  \<open>RemoveOldest\<close> for the entry at the back when the cache is not empty, \<open>Add\<close> for
  the entry at the back when a new key makes the length exceed a non-zero
  \<open>MaxEntries\<close>, \<open>Get\<close> never. \<open>Clear\<close>, when it ranges over the keys of the map in any
  order, calls it once for every stored entry and then sets the list and the map to
  \<open>nil\<close>.

  This is all that holds of claim C8. With a NaN key the callback is called twice
  for one entry. After \<open>New(1)\<close> with \<open>OnEvicted\<close> set, \<open>Add(NaN, 1)\<close> and \<open>Add(NaN, 2)\<close>
  each miss in the map and push a new element; the second exceeds the capacity,
  and \<open>removeElement\<close> takes the element of \<open>(NaN, 1)\<close> off the list and calls
  \<open>OnEvicted(NaN, 1)\<close>, but its \<open>delete(c.cache, kv.key)\<close> removes nothing, so the
  element stays in the map. \<open>Clear\<close> then ranges over both elements of the map and
  calls \<open>OnEvicted(NaN, 1)\<close> again, beside \<open>OnEvicted(NaN, 2)\<close>.
\<close>

theorem on_evicted_once:
  assumes "c0 \<in> initial N True"
  shows "\<exists>outs c. run ops c0 = Inr (outs, c) \<and> distinct (map fst (items c)) \<and>
     (\<forall>k. \<exists>c'. Cache_Remove k c = Inr c' \<and>
             items c' = filter (\<lambda>kv. fst kv \<noteq> k) (items c) \<and>
             calls c' = calls c @ filter (\<lambda>kv. fst kv = k) (items c)) \<and>
     (\<exists>c'. Cache_RemoveOldest c = Inr c' \<and>
             items c' = butlast (items c) \<and>
             calls c' = calls c @ (if items c = [] then [] else [last (items c)])) \<and>
     (\<forall>k v. \<exists>c'. Cache_Add k v c = Inr c' \<and>
             items c' =
               (if k \<in> fst ` set (items c) then (k, v) # filter (\<lambda>kv. fst kv \<noteq> k) (items c)
                else if N \<noteq> 0 \<and> int (length (items c)) + 1 > N
                     then butlast ((k, v) # items c) else (k, v) # items c) \<and>
             calls c' = calls c @
               (if k \<notin> fst ` set (items c) \<and> N \<noteq> 0 \<and> int (length (items c)) + 1 > N
                then [last ((k, v) # items c)] else [])) \<and>
     (\<forall>k. \<exists>r c'. Cache_Get k c = Inr (r, c') \<and> calls c' = calls c) \<and>
     (\<forall>order. distinct order \<and> set order = fst ` set (items c) \<longrightarrow>
        (\<exists>c' new. Cache_Clear order c = Inr c' \<and> ll c' = None \<and> cache c' = None \<and>
                  calls c' = calls c @ new \<and> mset new = mset (items c)))"
proof -
  from reachable[OF assms, of ops] obtain outs c where
    c: "run ops c0 = Inr (outs, c)" "cache_ok c" "MaxEntries c = N" "OnEvicted c"
    by blast
  define ev where "ev \<longleftrightarrow> N \<noteq> 0 \<and> int (length (items c)) + 1 > N"
  have dk: "distinct (map fst (items c))" by (rule distinct_keys[OF c(2)])
  have rem: "\<exists>c'. Cache_Remove k c = Inr c' \<and>
             items c' = filter (\<lambda>kv. fst kv \<noteq> k) (items c) \<and>
             calls c' = calls c @ filter (\<lambda>kv. fst kv = k) (items c)" for k
    using Remove_ok[OF c(2), of k] c(4) by auto
  have old: "\<exists>c'. Cache_RemoveOldest c = Inr c' \<and>
             items c' = butlast (items c) \<and>
             calls c' = calls c @ (if items c = [] then [] else [last (items c)])"
    using RemoveOldest_ok[OF c(2)] c(4) by auto
  have add: "\<exists>c'. Cache_Add k v c = Inr c' \<and>
             items c' =
               (if k \<in> fst ` set (items c) then (k, v) # filter (\<lambda>kv. fst kv \<noteq> k) (items c)
                else if ev then butlast ((k, v) # items c) else (k, v) # items c) \<and>
             calls c' = calls c @
               (if k \<notin> fst ` set (items c) \<and> ev then [last ((k, v) # items c)] else [])" for k v
  proof -
    have "\<exists>c'. Cache_Add k v c = Inr c' \<and> cache_ok c' \<and> cache c' \<noteq> None \<and> ll c' \<noteq> None \<and>
           items c' =
             (if k \<in> fst ` set (items c) then (k, v) # filter (\<lambda>kv. fst kv \<noteq> k) (items c)
              else if ev then butlast ((k, v) # items c) else (k, v) # items c) \<and>
           calls c' = calls c @
             (if True \<and> k \<notin> fst ` set (items c) \<and> ev
              then [last ((k, v) # items c)] else []) \<and>
           MaxEntries c' = N \<and> OnEvicted c' = True"
      using Add_ok[OF c(2), of k v] unfolding c(3) ev_def eqTrueI[OF c(4)] .
    then show ?thesis unfolding simp_thms by blast
  qed
  have get: "\<exists>r c'. Cache_Get k c = Inr (r, c') \<and> calls c' = calls c" for k
    using Get_ok[OF c(2), of k] by blast
  have clr: "\<exists>c' new. Cache_Clear order c = Inr c' \<and> ll c' = None \<and> cache c' = None \<and>
                  calls c' = calls c @ new \<and> mset new = mset (items c)"
    if "distinct order \<and> set order = fst ` set (items c)" for order
  proof -
    from Clear_ok[OF c(2), of order] c(4) obtain c' where
      c': "Cache_Clear order c = Inr c'" "ll c' = None" "cache c' = None"
        "calls c' = calls c @ List.map_filter (\<lambda>k. map_option (Pair k) (map_of (items c) k)) order"
      by auto
    have "mset (List.map_filter (\<lambda>k. map_option (Pair k) (map_of (items c) k)) order)
        = mset (items c)"
      using that dk by (intro range_order_mset) simp_all
    with c' show ?thesis by blast
  qed
  have "run ops c0 = Inr (outs, c) \<and> distinct (map fst (items c)) \<and>
     (\<forall>k. \<exists>c'. Cache_Remove k c = Inr c' \<and>
             items c' = filter (\<lambda>kv. fst kv \<noteq> k) (items c) \<and>
             calls c' = calls c @ filter (\<lambda>kv. fst kv = k) (items c)) \<and>
     (\<exists>c'. Cache_RemoveOldest c = Inr c' \<and>
             items c' = butlast (items c) \<and>
             calls c' = calls c @ (if items c = [] then [] else [last (items c)])) \<and>
     (\<forall>k v. \<exists>c'. Cache_Add k v c = Inr c' \<and>
             items c' =
               (if k \<in> fst ` set (items c) then (k, v) # filter (\<lambda>kv. fst kv \<noteq> k) (items c)
                else if ev then butlast ((k, v) # items c) else (k, v) # items c) \<and>
             calls c' = calls c @
               (if k \<notin> fst ` set (items c) \<and> ev then [last ((k, v) # items c)] else [])) \<and>
     (\<forall>k. \<exists>r c'. Cache_Get k c = Inr (r, c') \<and> calls c' = calls c) \<and>
     (\<forall>order. distinct order \<and> set order = fst ` set (items c) \<longrightarrow>
        (\<exists>c' new. Cache_Clear order c = Inr c' \<and> ll c' = None \<and> cache c' = None \<and>
                  calls c' = calls c @ new \<and> mset new = mset (items c)))"
    using c(1) dk rem old add get clr by blast
  then show ?thesis
    unfolding ev_def by (intro exI[of _ outs] exI[of _ c])
qed

text \<open>
  The theorem at a cache of capacity one that holds \<open>a\<close>: adding \<open>b\<close> evicts \<open>a\<close>, and
  \<open>Clear\<close> reports \<open>a\<close>.
\<close>

theorem on_evicted_once_witness:
  "((lru_New 1)\<lparr> OnEvicted := True \<rparr> :: (string, int) Cache) \<in> initial 1 True \<and>
   (\<exists>outs c c' c'' new.
      run [Add ''a'' 1] ((lru_New 1)\<lparr> OnEvicted := True \<rparr> :: (string, int) Cache) = Inr (outs, c) \<and>
      items c = [(''a'', 1)] \<and>
      Cache_Add ''b'' 2 c = Inr c' \<and> items c' = [(''b'', 2)] \<and>
      calls c' = calls c @ [(''a'', 1)] \<and>
      distinct [''a''] \<and> set [''a''] = fst ` set (items c) \<and>
      Cache_Clear [''a''] c = Inr c'' \<and> ll c'' = None \<and> cache c'' = None \<and>
      calls c'' = calls c @ new \<and> mset new = mset (items c))"
proof -
  let ?c0 = "(lru_New 1)\<lparr> OnEvicted := True \<rparr> :: (string, int) Cache"
  have h: "?c0 \<in> initial 1 True"
    by (simp add: initial_def)
  from on_evicted_once[OF h, of "[Add ''a'' 1]"] obtain outs c where
    c: "run [Add ''a'' 1] ?c0 = Inr (outs, c)"
    and a: "\<And>k v. \<exists>c'. Cache_Add k v c = Inr c' \<and>
             items c' =
               (if k \<in> fst ` set (items c) then (k, v) # filter (\<lambda>kv. fst kv \<noteq> k) (items c)
                else if (1::int) \<noteq> 0 \<and> int (length (items c)) + 1 > 1
                     then butlast ((k, v) # items c) else (k, v) # items c) \<and>
             calls c' = calls c @
               (if k \<notin> fst ` set (items c) \<and> (1::int) \<noteq> 0 \<and> int (length (items c)) + 1 > 1
                then [last ((k, v) # items c)] else [])"
    and cl: "\<And>order. distinct order \<and> set order = fst ` set (items c) \<Longrightarrow>
        (\<exists>c' new. Cache_Clear order c = Inr c' \<and> ll c' = None \<and> cache c' = None \<and>
                  calls c' = calls c @ new \<and> mset new = mset (items c))"
    by blast
  have "map_sum id (\<lambda>r. items (snd r)) (run [Add ''a'' 1] ?c0) = Inr [(''a'', 1)]"
    by code_simp
  then have it: "items c = [(''a'', 1)]" unfolding c by simp
  from a[of "''b''" 2] obtain c' where c': "Cache_Add ''b'' 2 c = Inr c'"
    "items c' = [(''b'', 2)]" "calls c' = calls c @ [(''a'', 1)]"
    unfolding it by auto
  have o: "distinct [''a''] \<and> set [''a''] = fst ` set (items c)"
    unfolding it by simp
  from cl[OF o] obtain c'' new where "Cache_Clear [''a''] c = Inr c''" "ll c'' = None"
    "cache c'' = None" "calls c'' = calls c @ new" "mset new = mset (items c)"
    by blast
  with h c it c' o show ?thesis
    by (intro conjI exI[of _ outs] exI[of _ c] exI[of _ c'] exI[of _ c''] exI[of _ new])
       simp_all
qed

text \<open>
  Claim C10. On a cache whose map is \<open>nil\<close>, whatever its other fields, \<open>Get\<close> is a
  miss, \<open>Remove\<close> and \<open>RemoveOldest\<close> change nothing, \<open>Len\<close> is 0, and \<open>Add\<close> sets the
  map and the list and inserts the entry (which a negative \<open>MaxEntries\<close> evicts at
  once); none of them panics. The zero value has a \<open>nil\<close> map, and so has every
  cache that \<open>Clear\<close> returns.
\<close>

theorem nil_storage_total:
  "Cache_Get k (c\<lparr> cache := None \<rparr>) = Inr (None, c\<lparr> cache := None \<rparr>) \<and>
   Cache_Remove k (c\<lparr> cache := None \<rparr>) = Inr (c\<lparr> cache := None \<rparr>) \<and>
   Cache_RemoveOldest (c\<lparr> cache := None \<rparr>) = Inr (c\<lparr> cache := None \<rparr>) \<and>
   Cache_Len (c\<lparr> cache := None \<rparr>) = Inr 0 \<and>
   (\<exists>c'. Cache_Add k v (c\<lparr> cache := None \<rparr>) = Inr c' \<and> cache c' \<noteq> None \<and> ll c' \<noteq> None \<and>
         items c' = (if MaxEntries c < 0 then [] else [(k, v)])) \<and>
   cache (Cache_zero :: ('k, 'v) Cache) = None \<and>
   ((\<exists>p. Cache_Clear order c = Inl p) \<or>
    (\<exists>c'. Cache_Clear order c = Inr c' \<and> cache c' = None \<and> ll c' = None))"
proof (intro conjI)
  show "Cache_Get k (c\<lparr> cache := None \<rparr>) = Inr (None, c\<lparr> cache := None \<rparr>)"
    by (simp add: Cache_Get_def)
  show "Cache_Remove k (c\<lparr> cache := None \<rparr>) = Inr (c\<lparr> cache := None \<rparr>)"
    by (simp add: Cache_Remove_def)
  show "Cache_RemoveOldest (c\<lparr> cache := None \<rparr>) = Inr (c\<lparr> cache := None \<rparr>)"
    by (simp add: Cache_RemoveOldest_def)
  show "Cache_Len (c\<lparr> cache := None \<rparr>) = Inr 0"
    by (simp add: Cache_Len_def)
  show "\<exists>c'. Cache_Add k v (c\<lparr> cache := None \<rparr>) = Inr c' \<and> cache c' \<noteq> None \<and> ll c' \<noteq> None \<and>
         items c' = (if MaxEntries c < 0 then [] else [(k, v)])"
    by (cases "MaxEntries c < 0")
       (auto simp: Cache_Add_def Cache_RemoveOldest_def removeElement_def PushFront_def
          list_Len_def list_Remove_def Back_def items_def Let_def List.map_filter_simps)
  show "cache (Cache_zero :: ('k, 'v) Cache) = None"
    by (simp add: Cache_zero_def)
  show "(\<exists>p. Cache_Clear order c = Inl p) \<or>
    (\<exists>c'. Cache_Clear order c = Inr c' \<and> cache c' = None \<and> ll c' = None)"
    by (auto simp: Cache_Clear_def split: sum.splits)
qed

section \<open>Properties of single-flight\<close>

subsection \<open>The invariant holds in every reachable state\<close>

lemma flight_inv_world0: "flight_inv key world0"
  by (simp add: flight_inv_def world0_def the_map_def)

lemma refers_created: "created p = Some c \<Longrightarrow> refers p = Some c"
  by (cases p) auto

lemma holds_created: "holds p = Some c \<Longrightarrow> created p = Some c"
  by (cases p) auto

lemma inv_holds: "flight_inv key s \<Longrightarrow> holds (pc s t) = Some c \<Longrightarrow> the_map s (key t) = Some c"
  by (simp add: flight_inv_def)

lemma inv_map: "flight_inv key s \<Longrightarrow> the_map s k = Some c \<Longrightarrow> \<exists>t. key t = k \<and> holds (pc s t) = Some c"
  by (simp add: flight_inv_def)

lemma inv_created:
  "flight_inv key s \<Longrightarrow> created (pc s t) = Some c \<Longrightarrow> created (pc s t') = Some c \<Longrightarrow> t = t'"
  unfolding flight_inv_def by (elim conjE) (erule allE[of _ t], erule allE[of _ t'], erule allE[of _ c], simp)

lemma inv_refers: "flight_inv key s \<Longrightarrow> refers (pc s t) = Some c \<Longrightarrow> c < next_call s"
  by (simp add: flight_inv_def)

lemma inv_creator:
  "flight_inv key s \<Longrightarrow> refers (pc s t) = Some c \<Longrightarrow> \<exists>t0. key t0 = key t \<and> created (pc s t0) = Some c"
  by (simp add: flight_inv_def)

lemma creator_kept:
  assumes "flight_inv key s" and "refers (pc s u) = Some d"
    and "\<And>t0. created (pc s t0) = Some d \<Longrightarrow> created (pc s' t0) = Some d"
  shows "\<exists>t0. key t0 = key u \<and> created (pc s' t0) = Some d"
  using inv_creator[OF assms(1,2)] assms(3) by blast

lemma inv_cell: "flight_inv key s \<Longrightarrow> cell_ok (pc s t) (heap s)"
  by (simp add: flight_inv_def)

lemma inv_zero: "flight_inv key s \<Longrightarrow> heap s c = Some cl \<Longrightarrow> wg cl = 0 \<Longrightarrow> val_err cl \<noteq> None"
  by (simp add: flight_inv_def)

lemma inv_invoked: "flight_inv key s \<Longrightarrow> t \<in> set (invoked s) \<longleftrightarrow> has_invoked (pc s t)"
  by (simp add: flight_inv_def)

lemma inv_distinct: "flight_inv key s \<Longrightarrow> distinct (invoked s)"
  by (simp add: flight_inv_def)

lemma flight_invI:
  assumes "\<And>t c. holds (pc s t) = Some c \<Longrightarrow> the_map s (key t) = Some c"
    and "\<And>k c. the_map s k = Some c \<Longrightarrow> \<exists>t. key t = k \<and> holds (pc s t) = Some c"
    and "\<And>t t' c. created (pc s t) = Some c \<Longrightarrow> created (pc s t') = Some c \<Longrightarrow> t = t'"
    and "\<And>t c. refers (pc s t) = Some c \<Longrightarrow> c < next_call s"
    and "\<And>t c. refers (pc s t) = Some c \<Longrightarrow> \<exists>t0. key t0 = key t \<and> created (pc s t0) = Some c"
    and "\<And>t. cell_ok (pc s t) (heap s)"
    and "\<And>c cl. heap s c = Some cl \<Longrightarrow> wg cl = 0 \<Longrightarrow> val_err cl \<noteq> None"
    and "\<And>t. t \<in> set (invoked s) \<longleftrightarrow> has_invoked (pc s t)"
    and "distinct (invoked s)"
  shows "flight_inv key s"
  unfolding flight_inv_def using assms by blast

lemma step_enter:
  assumes inv: "flight_inv key s" and p: "pc s t = Idle"
  shows "Do_step key t r s = Some (s\<lparr> pc := (pc s)(t := Entered) \<rparr>)"
    and "flight_inv key (s\<lparr> pc := (pc s)(t := Entered) \<rparr>)"
proof -
  let ?s' = "s\<lparr> pc := (pc s)(t := Entered) \<rparr>"
  show "Do_step key t r s = Some ?s'" using p by (simp add: Do_step_def)
  have m': "the_map ?s' = the_map s" by (simp add: the_map_def)
  show "flight_inv key ?s'"
  proof (rule flight_invI)
    fix u d assume "holds (pc ?s' u) = Some d"
    then show "the_map ?s' (key u) = Some d"
      unfolding m' using inv_holds[OF inv, of u d] by (auto split: if_splits)
  next
    fix k d assume "the_map ?s' k = Some d"
    then obtain u where u: "key u = k" "holds (pc s u) = Some d"
      unfolding m' using inv_map[OF inv] by blast
    then have "u \<noteq> t" using p by auto
    with u show "\<exists>u. key u = k \<and> holds (pc ?s' u) = Some d" by auto
  next
    fix u u' d assume "created (pc ?s' u) = Some d" "created (pc ?s' u') = Some d"
    then show "u = u'" using inv_created[OF inv, of u d u'] by (auto split: if_splits)
  next
    fix u d assume "refers (pc ?s' u) = Some d"
    then show "d < next_call ?s'" using inv_refers[OF inv, of u d] by (auto split: if_splits)
  next
    fix u d assume "refers (pc ?s' u) = Some d"
    then have "refers (pc s u) = Some d" using p by (auto split: if_splits)
    then show "\<exists>t0. key t0 = key u \<and> created (pc ?s' t0) = Some d"
      by (rule creator_kept[OF inv]) (use p in \<open>auto split: if_splits\<close>)
  next
    fix u show "cell_ok (pc ?s' u) (heap ?s')" using inv_cell[OF inv, of u] by auto
  next
    fix d cl assume "heap ?s' d = Some cl" "wg cl = 0"
    then show "val_err cl \<noteq> None" using inv_zero[OF inv, of d cl] by simp
  next
    fix u show "u \<in> set (invoked ?s') \<longleftrightarrow> has_invoked (pc ?s' u)"
      using inv_invoked[OF inv, of u] p by auto
  next
    show "distinct (invoked ?s')" using inv_distinct[OF inv] by simp
  qed
qed

lemma step_join:
  assumes inv: "flight_inv key s" and p: "pc s t = Entered" and mk: "the_map s (key t) = Some c"
  shows "Do_step key t r s = Some (s\<lparr> g_m := Some (the_map s), pc := (pc s)(t := Waiting c) \<rparr>)"
    and "flight_inv key (s\<lparr> g_m := Some (the_map s), pc := (pc s)(t := Waiting c) \<rparr>)"
proof -
  let ?s' = "s\<lparr> g_m := Some (the_map s), pc := (pc s)(t := Waiting c) \<rparr>"
  show "Do_step key t r s = Some ?s'"
    using p mk by (simp add: Do_step_def the_map_def Let_def)
  have m': "the_map ?s' = the_map s" by (simp add: the_map_def)
  from inv_map[OF inv mk] obtain t0 where t0: "key t0 = key t" "holds (pc s t0) = Some c" by blast
  then have "refers (pc s t0) = Some c" by (simp add: refers_created holds_created)
  then have c: "c < next_call s" by (rule inv_refers[OF inv])
  have cd: "c \<in> dom (heap s)"
    using inv_cell[OF inv, of t0] t0(2) by (cases "pc s t0") auto
  show "flight_inv key ?s'"
  proof (rule flight_invI)
    fix u d assume "holds (pc ?s' u) = Some d"
    then show "the_map ?s' (key u) = Some d"
      unfolding m' using inv_holds[OF inv, of u d] by (auto split: if_splits)
  next
    fix k d assume "the_map ?s' k = Some d"
    then obtain u where u: "key u = k" "holds (pc s u) = Some d"
      unfolding m' using inv_map[OF inv] by blast
    then have "u \<noteq> t" using p by auto
    with u show "\<exists>u. key u = k \<and> holds (pc ?s' u) = Some d" by auto
  next
    fix u u' d assume "created (pc ?s' u) = Some d" "created (pc ?s' u') = Some d"
    then show "u = u'" using inv_created[OF inv, of u d u'] by (auto split: if_splits)
  next
    fix u d assume "refers (pc ?s' u) = Some d"
    then show "d < next_call ?s'" using inv_refers[OF inv, of u d] c by (auto split: if_splits)
  next
    fix u d assume r: "refers (pc ?s' u) = Some d"
    show "\<exists>t0. key t0 = key u \<and> created (pc ?s' t0) = Some d"
    proof (cases "u = t")
      case True
      with r have "d = c" by simp
      moreover have "created (pc ?s' t0) = Some c" using t0(2) p by (auto simp: holds_created)
      ultimately show ?thesis using t0(1) True by blast
    next
      case False
      with r have "refers (pc s u) = Some d" by simp
      then show ?thesis by (rule creator_kept[OF inv]) (use p in \<open>auto split: if_splits\<close>)
    qed
  next
    fix u show "cell_ok (pc ?s' u) (heap ?s')" using inv_cell[OF inv, of u] cd by auto
  next
    fix d cl assume "heap ?s' d = Some cl" "wg cl = 0"
    then show "val_err cl \<noteq> None" using inv_zero[OF inv, of d cl] by simp
  next
    fix u show "u \<in> set (invoked ?s') \<longleftrightarrow> has_invoked (pc ?s' u)"
      using inv_invoked[OF inv, of u] p by auto
  next
    show "distinct (invoked ?s')" using inv_distinct[OF inv] by simp
  qed
qed

lemma step_register:
  assumes inv: "flight_inv key s" and p: "pc s t = Entered" and mk: "the_map s (key t) = None"
  shows "Do_step key t r s = Some (s\<lparr> g_m := Some ((the_map s)(key t \<mapsto> next_call s)),
            heap := (heap s)(next_call s \<mapsto> \<lparr> wg = 1, val_err = None \<rparr>),
            next_call := Suc (next_call s),
            pc := (pc s)(t := Registered (next_call s)) \<rparr>)"
    and "flight_inv key (s\<lparr> g_m := Some ((the_map s)(key t \<mapsto> next_call s)),
            heap := (heap s)(next_call s \<mapsto> \<lparr> wg = 1, val_err = None \<rparr>),
            next_call := Suc (next_call s),
            pc := (pc s)(t := Registered (next_call s)) \<rparr>)"
proof -
  let ?n = "next_call s"
  let ?s' = "s\<lparr> g_m := Some ((the_map s)(key t \<mapsto> ?n)),
            heap := (heap s)(?n \<mapsto> \<lparr> wg = 1, val_err = None \<rparr>),
            next_call := Suc ?n,
            pc := (pc s)(t := Registered ?n) \<rparr>"
  show "Do_step key t r s = Some ?s'"
    using p mk by (simp add: Do_step_def the_map_def Let_def)
  have m': "the_map ?s' = (the_map s)(key t \<mapsto> ?n)" by (simp add: the_map_def)
  have nref: "refers (pc s u) \<noteq> Some ?n" for u
    using inv_refers[OF inv, of u ?n] by auto
  have ncre: "created (pc s u) \<noteq> Some ?n" for u
    using nref[of u] refers_created[of "pc s u" ?n] by auto
  have nhol: "holds (pc s u) \<noteq> Some ?n" for u
    using ncre[of u] holds_created[of "pc s u" ?n] by auto
  show "flight_inv key ?s'"
  proof (rule flight_invI)
    fix u d assume h: "holds (pc ?s' u) = Some d"
    show "the_map ?s' (key u) = Some d"
    proof (cases "u = t")
      case True
      with h show ?thesis unfolding m' by simp
    next
      case False
      with h have hu: "holds (pc s u) = Some d" by simp
      then have "the_map s (key u) = Some d" by (rule inv_holds[OF inv])
      with mk have "key u \<noteq> key t" by auto
      with \<open>the_map s (key u) = Some d\<close> show ?thesis unfolding m' by simp
    qed
  next
    fix k d assume a: "the_map ?s' k = Some d"
    show "\<exists>u. key u = k \<and> holds (pc ?s' u) = Some d"
    proof (cases "k = key t")
      case True
      with a show ?thesis unfolding m' by (intro exI[of _ t]) simp
    next
      case False
      with a have "the_map s k = Some d" unfolding m' by simp
      then obtain u where u: "key u = k" "holds (pc s u) = Some d"
        using inv_map[OF inv] by blast
      then have "u \<noteq> t" using False by auto
      with u show ?thesis by auto
    qed
  next
    fix u u' d assume "created (pc ?s' u) = Some d" "created (pc ?s' u') = Some d"
    then show "u = u'"
      using inv_created[OF inv, of u d u'] ncre[of u] ncre[of u'] by (auto split: if_splits)
  next
    fix u d assume "refers (pc ?s' u) = Some d"
    then show "d < next_call ?s'"
      using inv_refers[OF inv, of u d] by (auto split: if_splits)
  next
    fix u d assume r: "refers (pc ?s' u) = Some d"
    show "\<exists>t0. key t0 = key u \<and> created (pc ?s' t0) = Some d"
    proof (cases "u = t")
      case True
      with r have "created (pc ?s' t) = Some d" by simp
      with True show ?thesis by blast
    next
      case False
      with r have "refers (pc s u) = Some d" by simp
      then show ?thesis by (rule creator_kept[OF inv]) (use p in \<open>auto split: if_splits\<close>)
    qed
  next
    fix u show "cell_ok (pc ?s' u) (heap ?s')"
    proof (cases "u = t")
      case True
      then show ?thesis by simp
    next
      case False
      then show ?thesis
        using inv_cell[OF inv, of u] nref[of u] by (cases "pc s u") auto
    qed
  next
    fix d cl assume "heap ?s' d = Some cl" "wg cl = 0"
    then show "val_err cl \<noteq> None" using inv_zero[OF inv, of d cl] by (auto split: if_splits)
  next
    fix u show "u \<in> set (invoked ?s') \<longleftrightarrow> has_invoked (pc ?s' u)"
      using inv_invoked[OF inv, of u] p by auto
  next
    show "distinct (invoked ?s')" using inv_distinct[OF inv] by simp
  qed
qed

lemma step_wake:
  assumes inv: "flight_inv key s" and p: "pc s t = Waiting c"
    and st: "Do_step key t r s = Some s'"
  shows "\<exists>cl. heap s c = Some cl \<and> wg cl = 0 \<and>
           s' = s\<lparr> pc := (pc s)(t := ReturnedDup c (val_err cl)) \<rparr>"
    and "flight_inv key s'"
proof -
  from st p obtain cl where cl: "heap s c = Some cl" "wg cl = 0"
    and s': "s' = s\<lparr> pc := (pc s)(t := ReturnedDup c (val_err cl)) \<rparr>"
    by (auto simp: Do_step_def split: option.splits if_splits)
  then show "\<exists>cl. heap s c = Some cl \<and> wg cl = 0 \<and>
           s' = s\<lparr> pc := (pc s)(t := ReturnedDup c (val_err cl)) \<rparr>"
    by blast
  have m': "the_map s' = the_map s" by (simp add: s' the_map_def)
  have ve: "val_err cl \<noteq> None" by (rule inv_zero[OF inv cl])
  show "flight_inv key s'"
  proof (rule flight_invI)
    fix u d assume "holds (pc s' u) = Some d"
    then show "the_map s' (key u) = Some d"
      unfolding m' using inv_holds[OF inv, of u d] by (auto simp: s' split: if_splits)
  next
    fix k d assume "the_map s' k = Some d"
    then obtain u where u: "key u = k" "holds (pc s u) = Some d"
      unfolding m' using inv_map[OF inv] by blast
    then have "u \<noteq> t" using p by auto
    with u show "\<exists>u. key u = k \<and> holds (pc s' u) = Some d" by (auto simp: s')
  next
    fix u u' d assume "created (pc s' u) = Some d" "created (pc s' u') = Some d"
    then show "u = u'" using inv_created[OF inv, of u d u'] by (auto simp: s' split: if_splits)
  next
    fix u d assume "refers (pc s' u) = Some d"
    then show "d < next_call s'"
      using inv_refers[OF inv, of u d] inv_refers[OF inv, of t c] p
      by (auto simp: s' split: if_splits)
  next
    fix u d assume "refers (pc s' u) = Some d"
    then have "refers (pc s u) = Some d" using p by (auto simp: s' split: if_splits)
    then show "\<exists>t0. key t0 = key u \<and> created (pc s' t0) = Some d"
      by (rule creator_kept[OF inv]) (use p in \<open>auto simp: s' split: if_splits\<close>)
  next
    fix u show "cell_ok (pc s' u) (heap s')"
      using inv_cell[OF inv, of u] cl ve by (auto simp: s')
  next
    fix d cl' assume "heap s' d = Some cl'" "wg cl' = 0"
    then show "val_err cl' \<noteq> None" using inv_zero[OF inv, of d cl'] by (simp add: s')
  next
    fix u show "u \<in> set (invoked s') \<longleftrightarrow> has_invoked (pc s' u)"
      using inv_invoked[OF inv, of u] p by (auto simp: s')
  next
    show "distinct (invoked s')" using inv_distinct[OF inv] by (simp add: s')
  qed
qed

lemma step_invoke:
  assumes inv: "flight_inv key s" and p: "pc s t = Registered c"
  shows "Do_step key t r s = Some (s\<lparr> pc := (pc s)(t := InFlight c), invoked := invoked s @ [t] \<rparr>)"
    and "flight_inv key (s\<lparr> pc := (pc s)(t := InFlight c), invoked := invoked s @ [t] \<rparr>)"
proof -
  let ?s' = "s\<lparr> pc := (pc s)(t := InFlight c), invoked := invoked s @ [t] \<rparr>"
  show "Do_step key t r s = Some ?s'" using p by (simp add: Do_step_def)
  have m': "the_map ?s' = the_map s" by (simp add: the_map_def)
  have tn: "t \<notin> set (invoked s)" using inv_invoked[OF inv, of t] p by simp
  show "flight_inv key ?s'"
  proof (rule flight_invI)
    fix u d assume "holds (pc ?s' u) = Some d"
    then show "the_map ?s' (key u) = Some d"
      unfolding m' using inv_holds[OF inv, of u d] p by (auto split: if_splits)
  next
    fix k d assume "the_map ?s' k = Some d"
    then obtain u where u: "key u = k" "holds (pc s u) = Some d"
      unfolding m' using inv_map[OF inv] by blast
    then show "\<exists>u. key u = k \<and> holds (pc ?s' u) = Some d"
      using p by (intro exI[of _ u]) auto
  next
    fix u u' d assume "created (pc ?s' u) = Some d" "created (pc ?s' u') = Some d"
    then show "u = u'"
      using inv_created[OF inv, of u d u'] p by (auto split: if_splits)
  next
    fix u d assume "refers (pc ?s' u) = Some d"
    then show "d < next_call ?s'"
      using inv_refers[OF inv, of u d] p by (auto split: if_splits)
  next
    fix u d assume "refers (pc ?s' u) = Some d"
    then have "refers (pc s u) = Some d" using p by (auto split: if_splits)
    then show "\<exists>t0. key t0 = key u \<and> created (pc ?s' t0) = Some d"
      by (rule creator_kept[OF inv]) (use p in \<open>auto split: if_splits\<close>)
  next
    fix u show "cell_ok (pc ?s' u) (heap ?s')"
      using inv_cell[OF inv, of u] p by auto
  next
    fix d cl assume "heap ?s' d = Some cl" "wg cl = 0"
    then show "val_err cl \<noteq> None" using inv_zero[OF inv, of d cl] by simp
  next
    fix u show "u \<in> set (invoked ?s') \<longleftrightarrow> has_invoked (pc ?s' u)"
      using inv_invoked[OF inv, of u] p by auto
  next
    show "distinct (invoked ?s')" using inv_distinct[OF inv] tn by simp
  qed
qed

lemma only_creator:
  assumes inv: "flight_inv key s" and p: "created (pc s t) = Some c" and u: "u \<noteq> t"
  shows "created (pc s u) \<noteq> Some c"
  using inv_created[OF inv p, of u] u by auto

lemma step_fn_returns:
  assumes inv: "flight_inv key s" and p: "pc s t = InFlight c"
  shows "\<exists>cl. heap s c = Some cl \<and>
           Do_step key t r s = Some (s\<lparr> heap := (heap s)(c \<mapsto> cl\<lparr> val_err := Some r \<rparr>),
                                 pc := (pc s)(t := Finished c) \<rparr>) \<and>
           flight_inv key (s\<lparr> heap := (heap s)(c \<mapsto> cl\<lparr> val_err := Some r \<rparr>),
                                 pc := (pc s)(t := Finished c) \<rparr>)"
proof -
  from inv_cell[OF inv, of t] p obtain cl where cl: "heap s c = Some cl" "wg cl = 1" by auto
  let ?s' = "s\<lparr> heap := (heap s)(c \<mapsto> cl\<lparr> val_err := Some r \<rparr>), pc := (pc s)(t := Finished c) \<rparr>"
  have st: "Do_step key t r s = Some ?s'" using p cl by (simp add: Do_step_def)
  have m': "the_map ?s' = the_map s" by (simp add: the_map_def)
  have cr: "created (pc s t) = Some c" using p by simp
  have "flight_inv key ?s'"
  proof (rule flight_invI)
    fix u d assume "holds (pc ?s' u) = Some d"
    then show "the_map ?s' (key u) = Some d"
      unfolding m' using inv_holds[OF inv, of u d] p by (auto split: if_splits)
  next
    fix k d assume "the_map ?s' k = Some d"
    then obtain u where u: "key u = k" "holds (pc s u) = Some d"
      unfolding m' using inv_map[OF inv] by blast
    then show "\<exists>u. key u = k \<and> holds (pc ?s' u) = Some d"
      using p by (intro exI[of _ u]) auto
  next
    fix u u' d assume "created (pc ?s' u) = Some d" "created (pc ?s' u') = Some d"
    then show "u = u'"
      using inv_created[OF inv, of u d u'] p by (auto split: if_splits)
  next
    fix u d assume "refers (pc ?s' u) = Some d"
    then show "d < next_call ?s'"
      using inv_refers[OF inv, of u d] p by (auto split: if_splits)
  next
    fix u d assume "refers (pc ?s' u) = Some d"
    then have "refers (pc s u) = Some d" using p by (auto split: if_splits)
    then show "\<exists>t0. key t0 = key u \<and> created (pc ?s' t0) = Some d"
      by (rule creator_kept[OF inv]) (use p in \<open>auto split: if_splits\<close>)
  next
    fix u show "cell_ok (pc ?s' u) (heap ?s')"
    proof (cases "u = t")
      case True
      then show ?thesis using cl by simp
    next
      case False
      then show ?thesis
        using inv_cell[OF inv, of u] cl only_creator[OF inv cr False]
        by (cases "pc s u") auto
    qed
  next
    fix d cl' assume "heap ?s' d = Some cl'" "wg cl' = 0"
    then show "val_err cl' \<noteq> None"
      using inv_zero[OF inv, of d cl'] cl by (auto split: if_splits)
  next
    fix u show "u \<in> set (invoked ?s') \<longleftrightarrow> has_invoked (pc ?s' u)"
      using inv_invoked[OF inv, of u] p by auto
  next
    show "distinct (invoked ?s')" using inv_distinct[OF inv] by simp
  qed
  with cl st show ?thesis by blast
qed

lemma step_done:
  assumes inv: "flight_inv key s" and p: "pc s t = Finished c"
  shows "\<exists>cl. heap s c = Some cl \<and>
           Do_step key t r s = Some (s\<lparr> heap := (heap s)(c \<mapsto> cl\<lparr> wg := 0 \<rparr>),
                                 pc := (pc s)(t := Signalled c) \<rparr>) \<and>
           flight_inv key (s\<lparr> heap := (heap s)(c \<mapsto> cl\<lparr> wg := 0 \<rparr>),
                                 pc := (pc s)(t := Signalled c) \<rparr>)"
proof -
  from inv_cell[OF inv, of t] p obtain cl where
    cl: "heap s c = Some cl" "wg cl = 1" "val_err cl \<noteq> None" by auto
  let ?s' = "s\<lparr> heap := (heap s)(c \<mapsto> cl\<lparr> wg := 0 \<rparr>), pc := (pc s)(t := Signalled c) \<rparr>"
  have st: "Do_step key t r s = Some ?s'" using p cl by (simp add: Do_step_def)
  have m': "the_map ?s' = the_map s" by (simp add: the_map_def)
  have cr: "created (pc s t) = Some c" using p by simp
  have "flight_inv key ?s'"
  proof (rule flight_invI)
    fix u d assume "holds (pc ?s' u) = Some d"
    then show "the_map ?s' (key u) = Some d"
      unfolding m' using inv_holds[OF inv, of u d] p by (auto split: if_splits)
  next
    fix k d assume "the_map ?s' k = Some d"
    then obtain u where u: "key u = k" "holds (pc s u) = Some d"
      unfolding m' using inv_map[OF inv] by blast
    then show "\<exists>u. key u = k \<and> holds (pc ?s' u) = Some d"
      using p by (intro exI[of _ u]) auto
  next
    fix u u' d assume "created (pc ?s' u) = Some d" "created (pc ?s' u') = Some d"
    then show "u = u'"
      using inv_created[OF inv, of u d u'] p by (auto split: if_splits)
  next
    fix u d assume "refers (pc ?s' u) = Some d"
    then show "d < next_call ?s'"
      using inv_refers[OF inv, of u d] p by (auto split: if_splits)
  next
    fix u d assume "refers (pc ?s' u) = Some d"
    then have "refers (pc s u) = Some d" using p by (auto split: if_splits)
    then show "\<exists>t0. key t0 = key u \<and> created (pc ?s' t0) = Some d"
      by (rule creator_kept[OF inv]) (use p in \<open>auto split: if_splits\<close>)
  next
    fix u show "cell_ok (pc ?s' u) (heap ?s')"
    proof (cases "u = t")
      case True
      then show ?thesis using cl by simp
    next
      case False
      then show ?thesis
        using inv_cell[OF inv, of u] cl only_creator[OF inv cr False]
        by (cases "pc s u") auto
    qed
  next
    fix d cl' assume "heap ?s' d = Some cl'" "wg cl' = 0"
    then show "val_err cl' \<noteq> None"
      using inv_zero[OF inv, of d cl'] cl by (auto split: if_splits)
  next
    fix u show "u \<in> set (invoked ?s') \<longleftrightarrow> has_invoked (pc ?s' u)"
      using inv_invoked[OF inv, of u] p by auto
  next
    show "distinct (invoked ?s')" using inv_distinct[OF inv] by simp
  qed
  with cl st show ?thesis by blast
qed

lemma step_delete:
  assumes inv: "flight_inv key s" and p: "pc s t = Signalled c"
  shows "Do_step key t r s = Some (s\<lparr> g_m := Some ((the_map s)(key t := None)),
                                 pc := (pc s)(t := Deleted c) \<rparr>)"
    and "flight_inv key (s\<lparr> g_m := Some ((the_map s)(key t := None)),
                                 pc := (pc s)(t := Deleted c) \<rparr>)"
proof -
  let ?s' = "s\<lparr> g_m := Some ((the_map s)(key t := None)), pc := (pc s)(t := Deleted c) \<rparr>"
  have mt: "the_map s (key t) = Some c" using inv_holds[OF inv, of t c] p by simp
  then obtain mp where mp: "g_m s = Some mp" by (auto simp: the_map_def split: option.splits)
  show "Do_step key t r s = Some ?s'" using p mp by (simp add: Do_step_def the_map_def)
  have m': "the_map ?s' = (the_map s)(key t := None)" by (simp add: the_map_def)
  have cr: "created (pc s t) = Some c" using p by simp
  show "flight_inv key ?s'"
  proof (rule flight_invI)
    fix u d assume h: "holds (pc ?s' u) = Some d"
    then have ut: "u \<noteq> t" by (auto split: if_splits)
    with h have hu: "holds (pc s u) = Some d" by simp
    then have mu: "the_map s (key u) = Some d" by (rule inv_holds[OF inv])
    have "key u \<noteq> key t"
    proof
      assume "key u = key t"
      with mu mt have "d = c" by simp
      with hu have "created (pc s u) = Some c" by (simp add: holds_created)
      with only_creator[OF inv cr ut] show False by simp
    qed
    with mu show "the_map ?s' (key u) = Some d" unfolding m' by simp
  next
    fix k d assume a: "the_map ?s' k = Some d"
    then have kt: "k \<noteq> key t" and "the_map s k = Some d"
      unfolding m' by (auto split: if_splits)
    then obtain u where u: "key u = k" "holds (pc s u) = Some d"
      using inv_map[OF inv] by blast
    then have "u \<noteq> t" using kt by auto
    with u show "\<exists>u. key u = k \<and> holds (pc ?s' u) = Some d" by auto
  next
    fix u u' d assume "created (pc ?s' u) = Some d" "created (pc ?s' u') = Some d"
    then show "u = u'"
      using inv_created[OF inv, of u d u'] p by (auto split: if_splits)
  next
    fix u d assume "refers (pc ?s' u) = Some d"
    then show "d < next_call ?s'"
      using inv_refers[OF inv, of u d] p by (auto split: if_splits)
  next
    fix u d assume "refers (pc ?s' u) = Some d"
    then have "refers (pc s u) = Some d" using p by (auto split: if_splits)
    then show "\<exists>t0. key t0 = key u \<and> created (pc ?s' t0) = Some d"
      by (rule creator_kept[OF inv]) (use p in \<open>auto split: if_splits\<close>)
  next
    fix u show "cell_ok (pc ?s' u) (heap ?s')"
      using inv_cell[OF inv, of u] p by auto
  next
    fix d cl assume "heap ?s' d = Some cl" "wg cl = 0"
    then show "val_err cl \<noteq> None" using inv_zero[OF inv, of d cl] by simp
  next
    fix u show "u \<in> set (invoked ?s') \<longleftrightarrow> has_invoked (pc ?s' u)"
      using inv_invoked[OF inv, of u] p by auto
  next
    show "distinct (invoked ?s')" using inv_distinct[OF inv] by simp
  qed
qed

lemma step_return:
  assumes inv: "flight_inv key s" and p: "pc s t = Deleted c"
  shows "\<exists>cl. heap s c = Some cl \<and>
           Do_step key t r s = Some (s\<lparr> pc := (pc s)(t := Returned c (val_err cl)) \<rparr>) \<and>
           flight_inv key (s\<lparr> pc := (pc s)(t := Returned c (val_err cl)) \<rparr>)"
proof -
  from inv_cell[OF inv, of t] p obtain cl where
    cl: "heap s c = Some cl" "wg cl = 0" "val_err cl \<noteq> None" by auto
  let ?s' = "s\<lparr> pc := (pc s)(t := Returned c (val_err cl)) \<rparr>"
  have st: "Do_step key t r s = Some ?s'" using p cl by (simp add: Do_step_def)
  have m': "the_map ?s' = the_map s" by (simp add: the_map_def)
  have "flight_inv key ?s'"
  proof (rule flight_invI)
    fix u d assume "holds (pc ?s' u) = Some d"
    then show "the_map ?s' (key u) = Some d"
      unfolding m' using inv_holds[OF inv, of u d] by (auto split: if_splits)
  next
    fix k d assume "the_map ?s' k = Some d"
    then obtain u where u: "key u = k" "holds (pc s u) = Some d"
      unfolding m' using inv_map[OF inv] by blast
    then have "u \<noteq> t" using p by auto
    with u show "\<exists>u. key u = k \<and> holds (pc ?s' u) = Some d" by auto
  next
    fix u u' d assume "created (pc ?s' u) = Some d" "created (pc ?s' u') = Some d"
    then show "u = u'"
      using inv_created[OF inv, of u d u'] p by (auto split: if_splits)
  next
    fix u d assume "refers (pc ?s' u) = Some d"
    then show "d < next_call ?s'"
      using inv_refers[OF inv, of u d] p by (auto split: if_splits)
  next
    fix u d assume "refers (pc ?s' u) = Some d"
    then have "refers (pc s u) = Some d" using p by (auto split: if_splits)
    then show "\<exists>t0. key t0 = key u \<and> created (pc ?s' t0) = Some d"
      by (rule creator_kept[OF inv]) (use p in \<open>auto split: if_splits\<close>)
  next
    fix u show "cell_ok (pc ?s' u) (heap ?s')"
      using inv_cell[OF inv, of u] cl by auto
  next
    fix d cl' assume "heap ?s' d = Some cl'" "wg cl' = 0"
    then show "val_err cl' \<noteq> None" using inv_zero[OF inv, of d cl'] by simp
  next
    fix u show "u \<in> set (invoked ?s') \<longleftrightarrow> has_invoked (pc ?s' u)"
      using inv_invoked[OF inv, of u] p by auto
  next
    show "distinct (invoked ?s')" using inv_distinct[OF inv] by simp
  qed
  with cl st show ?thesis by blast
qed

lemma flight_inv_step:
  assumes inv: "flight_inv key s" and st: "Do_step key t r s = Some s'"
  shows "flight_inv key s'"
proof (cases "pc s t")
  case Idle
  from step_enter(1)[OF inv Idle, of r] step_enter(2)[OF inv Idle] st show ?thesis by simp
next
  case Entered
  show ?thesis
  proof (cases "the_map s (key t)")
    case None
    from step_register(1)[OF inv Entered None, of r] step_register(2)[OF inv Entered None] st
    show ?thesis by simp
  next
    case (Some c)
    from step_join(1)[OF inv Entered Some, of r] step_join(2)[OF inv Entered Some] st
    show ?thesis by simp
  qed
next
  case (Waiting c)
  then show ?thesis using step_wake(2)[OF inv Waiting st] by simp
next
  case (ReturnedDup c x)
  then show ?thesis using st by (simp add: Do_step_def)
next
  case (Registered c)
  from step_invoke(1)[OF inv Registered, of r] step_invoke(2)[OF inv Registered] st show ?thesis by simp
next
  case (InFlight c)
  from step_fn_returns[OF inv InFlight, of r] st show ?thesis by auto
next
  case (Finished c)
  from step_done[OF inv Finished, of r] st show ?thesis by auto
next
  case (Signalled c)
  from step_delete(1)[OF inv Signalled, of r] step_delete(2)[OF inv Signalled] st show ?thesis by simp
next
  case (Deleted c)
  from step_return[OF inv Deleted, of r] st show ?thesis by auto
next
  case (Returned c x)
  then show ?thesis using st by (simp add: Do_step_def)
qed

lemma flight_inv_sched_step: "flight_inv key s \<Longrightarrow> flight_inv key (sched_step key s x)"
  by (auto simp: sched_step_def split: option.splits intro: flight_inv_step)

lemma flight_inv_run:
  "flight_inv key s \<Longrightarrow> flight_inv key (run_sched key sched s)"
  unfolding run_sched_def
  by (induction sched arbitrary: s) (simp_all add: flight_inv_sched_step)

lemma flight_inv_reachable: "flight_inv key (run_sched key sched world0)"
  by (rule flight_inv_run[OF flight_inv_world0])


subsection \<open>The claim\<close>

text \<open>
  Claim C3, as stated, fails. Two calls for the same key overlap in time and \<open>fn\<close> is
  invoked twice. Call 0 enters, registers its record and invokes \<open>fn\<close>. While that
  invocation is in flight, call 1 enters \<open>Do\<close> and stands at \<open>g.mu.Lock()\<close>. Call 0 gets
  the result 1 from \<open>fn\<close>, calls \<open>Done\<close> and deletes the key. Only now call 1 acquires
  the mutex: it finds no record, registers one of its own and invokes \<open>fn\<close> again,
  while call 0 has not yet returned. The two calls go on to return different
  results. (In a schedule is written, for each step, the call that moves and what
  its \<open>fn\<close> returns.)
\<close>

theorem overlapping_calls_counterexample:
  "pc (run_sched one_key [(0, 1::int), (0, 1), (0, 1), (1, 2)] world0) 0 = InFlight 0 \<and>
   pc (run_sched one_key [(0, 1::int), (0, 1), (0, 1), (1, 2)] world0) 1 = Entered \<and>
   pc (run_sched one_key
      [(0, 1::int), (0, 1), (0, 1), (1, 2), (0, 1), (0, 1), (0, 1), (1, 2), (1, 2)] world0) 0
     = Deleted 0 \<and>
   pc (run_sched one_key
      [(0, 1::int), (0, 1), (0, 1), (1, 2), (0, 1), (0, 1), (0, 1), (1, 2), (1, 2)] world0) 1
     = InFlight 1 \<and>
   one_key 0 = one_key 1 \<and>
   invoked (run_sched one_key
      [(0, 1::int), (0, 1), (0, 1), (1, 2), (0, 1), (0, 1), (0, 1), (1, 2), (1, 2)] world0)
     = [0, 1] \<and>
   pc (run_sched one_key
      [(0, 1::int), (0, 1), (0, 1), (1, 2), (0, 1), (0, 1), (0, 1), (1, 2), (1, 2),
       (0, 1), (1, 2), (1, 2), (1, 2), (1, 2)] world0) 0 = Returned 0 (Some 1) \<and>
   pc (run_sched one_key
      [(0, 1::int), (0, 1), (0, 1), (1, 2), (0, 1), (0, 1), (0, 1), (1, 2), (1, 2),
       (0, 1), (1, 2), (1, 2), (1, 2), (1, 2)] world0) 1 = Returned 1 (Some 2)"
  by code_simp

text \<open>
  Claim C3, amended. In every state that any interleaving of any calls reaches:
  \<^item> two calls for the same key are never both running \<open>fn\<close>;
  \<^item> a call at \<open>g.mu.Lock()\<close> whose lookup, made under the mutex, finds a record for its
    key goes on to wait on that record and invokes nothing;
  \<^item> a call whose lookup finds no record for its key registers a new record (and is
    then about to invoke \<open>fn\<close>), whatever has happened since it entered \<open>Do\<close>;
  \<^item> a call that waits on a record waits on the record of another call for the same
    key; it cannot move before that call has got the result of \<open>fn\<close> and called
    \<open>Done\<close>, and from then on it can: it returns the assigned result of the record
    and invokes nothing;
  \<^item> so a duplicate never invokes \<open>fn\<close>;
  \<^item> all the calls that return from one record, the duplicates and the call that
    created it, return the same result, the one \<open>fn\<close> gave;
  \<^item> no call invokes \<open>fn\<close> twice;
  \<^item> only a call that waits or has returned cannot move.
\<close>

theorem single_flight:
  "(\<forall>t t' c c'. pc (run_sched key sched world0) t = InFlight c \<and>
       pc (run_sched key sched world0) t' = InFlight c' \<and> key t = key t' \<longrightarrow> t = t') \<and>
   (\<forall>t c r. pc (run_sched key sched world0) t = Entered \<and>
       the_map (run_sched key sched world0) (key t) = Some c \<longrightarrow>
       (\<exists>s'. Do_step key t r (run_sched key sched world0) = Some s' \<and> pc s' t = Waiting c \<and>
             invoked s' = invoked (run_sched key sched world0))) \<and>
   (\<forall>t r. pc (run_sched key sched world0) t = Entered \<and>
       the_map (run_sched key sched world0) (key t) = None \<longrightarrow>
       (\<exists>s'. Do_step key t r (run_sched key sched world0) = Some s' \<and>
             pc s' t = Registered (next_call (run_sched key sched world0)))) \<and>
   (\<forall>t c. pc (run_sched key sched world0) t = Waiting c \<longrightarrow>
       (\<exists>t0. t0 \<noteq> t \<and> key t0 = key t \<and> created (pc (run_sched key sched world0) t0) = Some c \<and>
          (if pc (run_sched key sched world0) t0 = Signalled c \<or>
              pc (run_sched key sched world0) t0 = Deleted c \<or>
              (\<exists>x. pc (run_sched key sched world0) t0 = Returned c x)
           then \<forall>r. \<exists>x. Do_step key t r (run_sched key sched world0) =
                  Some ((run_sched key sched world0)
                          \<lparr> pc := (pc (run_sched key sched world0))(t := ReturnedDup c (Some x)) \<rparr>)
           else \<forall>r. Do_step key t r (run_sched key sched world0) = None))) \<and>
   (\<forall>t c r s'. pc (run_sched key sched world0) t = Waiting c \<and>
       Do_step key t r (run_sched key sched world0) = Some s' \<longrightarrow>
       (\<exists>x. pc s' t = ReturnedDup c (Some x)) \<and>
       invoked s' = invoked (run_sched key sched world0)) \<and>
   (\<forall>t c x. pc (run_sched key sched world0) t = Waiting c \<or>
       pc (run_sched key sched world0) t = ReturnedDup c x \<longrightarrow>
       t \<notin> set (invoked (run_sched key sched world0))) \<and>
   (\<forall>t t' c x x'.
       (pc (run_sched key sched world0) t = ReturnedDup c x \<or>
        pc (run_sched key sched world0) t = Returned c x) \<and>
       (pc (run_sched key sched world0) t' = ReturnedDup c x' \<or>
        pc (run_sched key sched world0) t' = Returned c x') \<longrightarrow>
       x = x' \<and> x \<noteq> None) \<and>
   distinct (invoked (run_sched key sched world0)) \<and>
   (\<forall>t r. Do_step key t r (run_sched key sched world0) = None \<longrightarrow>
       (\<exists>c. pc (run_sched key sched world0) t = Waiting c) \<or>
       (\<exists>c x. pc (run_sched key sched world0) t = ReturnedDup c x) \<or>
       (\<exists>c x. pc (run_sched key sched world0) t = Returned c x))"
proof -
  define s where "s = run_sched key sched world0"
  have inv: "flight_inv key s" unfolding s_def by (rule flight_inv_reachable)
  have a: "t = t'" if "pc s t = InFlight c" "pc s t' = InFlight c'" "key t = key t'" for t t' c c'
  proof -
    have "the_map s (key t) = Some c" "the_map s (key t') = Some c'"
      using inv_holds[OF inv, of t c] inv_holds[OF inv, of t' c'] that by simp_all
    then have "c = c'" using that(3) by simp
    then show ?thesis using inv_created[OF inv, of t c t'] that by simp
  qed
  have b: "\<exists>s'. Do_step key t r s = Some s' \<and> pc s' t = Waiting c \<and> invoked s' = invoked s"
    if "pc s t = Entered" "the_map s (key t) = Some c" for t c r
    using step_join(1)[OF inv that, of r] by simp
  have b': "\<exists>s'. Do_step key t r s = Some s' \<and> pc s' t = Registered (next_call s)"
    if "pc s t = Entered" "the_map s (key t) = None" for t r
    using step_register(1)[OF inv that, of r] by simp
  have w: "\<exists>t0. t0 \<noteq> t \<and> key t0 = key t \<and> created (pc s t0) = Some c \<and>
          (if pc s t0 = Signalled c \<or> pc s t0 = Deleted c \<or> (\<exists>x. pc s t0 = Returned c x)
           then \<forall>r. \<exists>x. Do_step key t r s = Some (s\<lparr> pc := (pc s)(t := ReturnedDup c (Some x)) \<rparr>)
           else \<forall>r. Do_step key t r s = None)"
    if p: "pc s t = Waiting c" for t c
  proof -
    from p have "refers (pc s t) = Some c" by simp
    from inv_creator[OF inv this] obtain t0 where
      t0: "key t0 = key t" "created (pc s t0) = Some c" by blast
    from t0(2) p have ne: "t0 \<noteq> t" by auto
    have "if pc s t0 = Signalled c \<or> pc s t0 = Deleted c \<or> (\<exists>x. pc s t0 = Returned c x)
           then \<forall>r. \<exists>x. Do_step key t r s = Some (s\<lparr> pc := (pc s)(t := ReturnedDup c (Some x)) \<rparr>)
           else \<forall>r. Do_step key t r s = None"
      using inv_cell[OF inv, of t0] t0(2) p
      by (cases "pc s t0") (auto simp: Do_step_def)
    with t0 ne show ?thesis by blast
  qed
  have c: "(\<exists>x. pc s' t = ReturnedDup c (Some x)) \<and> invoked s' = invoked s"
    if "pc s t = Waiting c" "Do_step key t r s = Some s'" for t c r s'
  proof -
    from step_wake(1)[OF inv that] obtain cl where cl: "heap s c = Some cl" "wg cl = 0"
      "s' = s\<lparr> pc := (pc s)(t := ReturnedDup c (val_err cl)) \<rparr>" by blast
    from inv_zero[OF inv cl(1,2)] obtain x where "val_err cl = Some x" by auto
    with cl(3) show ?thesis by simp
  qed
  have d: "t \<notin> set (invoked s)" if "pc s t = Waiting c \<or> pc s t = ReturnedDup c x" for t c x
    using inv_invoked[OF inv, of t] that by auto
  have e: "x = x' \<and> x \<noteq> None"
    if "(pc s t = ReturnedDup c x \<or> pc s t = Returned c x) \<and>
        (pc s t' = ReturnedDup c x' \<or> pc s t' = Returned c x')" for t t' c x x'
    using inv_cell[OF inv, of t] inv_cell[OF inv, of t'] that by auto
  have f: "distinct (invoked s)" by (rule inv_distinct[OF inv])
  have g: "(\<exists>c. pc s t = Waiting c) \<or> (\<exists>c x. pc s t = ReturnedDup c x) \<or>
           (\<exists>c x. pc s t = Returned c x)"
    if n: "Do_step key t r s = None" for t r
  proof (cases "pc s t")
    case Idle
    with step_enter(1)[OF inv Idle, of r] n show ?thesis by simp
  next
    case Entered
    show ?thesis
    proof (cases "the_map s (key t)")
      case None
      with step_register(1)[OF inv Entered None, of r] n show ?thesis by simp
    next
      case (Some c)
      with step_join(1)[OF inv Entered Some, of r] n show ?thesis by simp
    qed
  next
    case (Registered c)
    with step_invoke(1)[OF inv Registered, of r] n show ?thesis by simp
  next
    case (InFlight c)
    with step_fn_returns[OF inv InFlight, of r] n show ?thesis by auto
  next
    case (Finished c)
    with step_done[OF inv Finished, of r] n show ?thesis by auto
  next
    case (Signalled c)
    with step_delete(1)[OF inv Signalled, of r] n show ?thesis by simp
  next
    case (Deleted c)
    with step_return[OF inv Deleted, of r] n show ?thesis by auto
  qed simp_all
  show ?thesis
    unfolding s_def[symmetric]
    apply (intro conjI allI impI)
    subgoal for t t' c c' using a by blast
    subgoal for t c r using b by blast
    subgoal for t r using b' by blast
    subgoal for t c using w by blast
    subgoal for t c r s' using c by blast
    subgoal for t c r s' using c by blast
    subgoal for t c x using d by blast
    subgoal for t t' c x x' using e[of t c x t' x'] by blast
    subgoal for t t' c x x' using e[of t c x t' x'] by blast
    subgoal using f .
    subgoal for t r using g by blast
    done
qed

text \<open>
  The theorem at two calls for one key. Call 1 enters while call 0 runs \<open>fn\<close>; its
  lookup finds the record of call 0, so it waits and invokes nothing; it cannot move
  until call 0 has called \<open>Done\<close>; then both return what the one invocation gave.
\<close>

theorem single_flight_witness:
  "pc (run_sched one_key [(0, 1::int), (0, 1), (0, 1), (1, 2)] world0) 0 = InFlight 0 \<and>
   pc (run_sched one_key [(0, 1::int), (0, 1), (0, 1), (1, 2)] world0) 1 = Entered \<and>
   the_map (run_sched one_key [(0, 1::int), (0, 1), (0, 1), (1, 2)] world0) (one_key 1) = Some 0 \<and>
   (\<exists>s'. Do_step one_key 1 2 (run_sched one_key [(0, 1::int), (0, 1), (0, 1), (1, 2)] world0) = Some s' \<and>
      pc s' 1 = Waiting 0 \<and>
      invoked s' = invoked (run_sched one_key [(0, 1::int), (0, 1), (0, 1), (1, 2)] world0)) \<and>
   pc (run_sched one_key [(0, 1::int), (0, 1), (0, 1), (1, 2), (1, 2)] world0) 1 = Waiting 0 \<and>
   1 \<notin> set (invoked (run_sched one_key [(0, 1::int), (0, 1), (0, 1), (1, 2), (1, 2)] world0)) \<and>
   pc (run_sched one_key
      [(0, 1::int), (0, 1), (0, 1), (1, 2), (1, 2), (1, 2), (0, 1), (0, 1), (1, 2), (0, 1), (0, 1)] world0) 1
     = ReturnedDup 0 (Some 1) \<and>
   pc (run_sched one_key
      [(0, 1::int), (0, 1), (0, 1), (1, 2), (1, 2), (1, 2), (0, 1), (0, 1), (1, 2), (0, 1), (0, 1)] world0) 0
     = Returned 0 (Some 1) \<and>
   invoked (run_sched one_key
      [(0, 1::int), (0, 1), (0, 1), (1, 2), (1, 2), (1, 2), (0, 1), (0, 1), (1, 2), (0, 1), (0, 1)] world0)
     = [0]"
proof -
  have p0: "pc (run_sched one_key [(0, 1::int), (0, 1), (0, 1), (1, 2)] world0) 0 = InFlight 0"
    by code_simp
  have p1: "pc (run_sched one_key [(0, 1::int), (0, 1), (0, 1), (1, 2)] world0) 1 = Entered"
    by code_simp
  have m1: "the_map (run_sched one_key [(0, 1::int), (0, 1), (0, 1), (1, 2)] world0) (one_key 1) = Some 0"
    by code_simp
  have w1: "pc (run_sched one_key [(0, 1::int), (0, 1), (0, 1), (1, 2), (1, 2)] world0) 1 = Waiting 0"
    by code_simp
  have q1: "pc (run_sched one_key
      [(0, 1::int), (0, 1), (0, 1), (1, 2), (1, 2), (1, 2), (0, 1), (0, 1), (1, 2), (0, 1), (0, 1)] world0) 1
     = ReturnedDup 0 (Some 1)"
    by code_simp
  have q0: "pc (run_sched one_key
      [(0, 1::int), (0, 1), (0, 1), (1, 2), (1, 2), (1, 2), (0, 1), (0, 1), (1, 2), (0, 1), (0, 1)] world0) 0
     = Returned 0 (Some 1)"
    by code_simp
  have iv: "invoked (run_sched one_key
      [(0, 1::int), (0, 1), (0, 1), (1, 2), (1, 2), (1, 2), (0, 1), (0, 1), (1, 2), (0, 1), (0, 1)] world0)
     = [0]"
    by code_simp
  have j: "\<exists>s'. Do_step one_key 1 2 (run_sched one_key [(0, 1::int), (0, 1), (0, 1), (1, 2)] world0) = Some s' \<and>
      pc s' 1 = Waiting 0 \<and>
      invoked s' = invoked (run_sched one_key [(0, 1::int), (0, 1), (0, 1), (1, 2)] world0)"
    using single_flight[of one_key "[(0, 1::int), (0, 1), (0, 1), (1, 2)]", THEN conjunct2, THEN conjunct1,
        rule_format, of 1 0 2] p1 m1
    by simp
  have n: "1 \<notin> set (invoked (run_sched one_key [(0, 1::int), (0, 1), (0, 1), (1, 2), (1, 2)] world0))"
    using single_flight[of one_key "[(0, 1::int), (0, 1), (0, 1), (1, 2), (1, 2)]", THEN conjunct2, THEN conjunct2, THEN conjunct2,
        THEN conjunct2, THEN conjunct2, THEN conjunct1, rule_format, of 1 0] w1
    by simp
  from p0 p1 m1 j w1 n q0 q1 iv show ?thesis by simp
qed

section \<open>The ownership scenario\<close>


text \<open>
  Claim C6, as stated, fails: in the ring with three replicas and the default CRC-32
  hash, holding the peers \<open>6\<close>, \<open>4\<close> and \<open>2\<close>, the key \<open>2\<close> is not owned by the
  peer \<open>2\<close>.
\<close>

theorem default_ring_Get_2_counterexample:
  "Map_Get ''2'' (Map_Add [''6'', ''4'', ''2''] (consistenthash_New 3 None)) \<noteq> Some ''2''"
  by code_simp

text \<open>
  Claim C6, amended. In the ring with three replicas and the default CRC-32 hash
  (used when \<open>New\<close> is given no hash function), after adding the peers \<open>6\<close>, \<open>4\<close>
  and \<open>2\<close>, the keys \<open>2\<close>, \<open>11\<close>, \<open>23\<close> and \<open>27\<close> are all owned by the peer \<open>6\<close>.
\<close>

theorem default_ring_owners:
  "hash (consistenthash_New 3 None) = ChecksumIEEE \<and>
   Map_Get ''2'' (Map_Add [''6'', ''4'', ''2''] (consistenthash_New 3 None)) = Some ''6'' \<and>
   Map_Get ''11'' (Map_Add [''6'', ''4'', ''2''] (consistenthash_New 3 None)) = Some ''6'' \<and>
   Map_Get ''23'' (Map_Add [''6'', ''4'', ''2''] (consistenthash_New 3 None)) = Some ''6'' \<and>
   Map_Get ''27'' (Map_Add [''6'', ''4'', ''2''] (consistenthash_New 3 None)) = Some ''6''"
proof -
  have "hash (consistenthash_New 3 None) = ChecksumIEEE"
    by (simp add: consistenthash_New_def)
  moreover have
    "Map_Get ''2'' (Map_Add [''6'', ''4'', ''2''] (consistenthash_New 3 None)) = Some ''6''"
    by code_simp
  moreover have
    "Map_Get ''11'' (Map_Add [''6'', ''4'', ''2''] (consistenthash_New 3 None)) = Some ''6''"
    by code_simp
  moreover have
    "Map_Get ''23'' (Map_Add [''6'', ''4'', ''2''] (consistenthash_New 3 None)) = Some ''6''"
    by code_simp
  moreover have
    "Map_Get ''27'' (Map_Add [''6'', ''4'', ''2''] (consistenthash_New 3 None)) = Some ''6''"
    by code_simp
  ultimately show ?thesis by simp
qed

end
